theory Spec2Isabelle
  imports Complex_Main "HOL-Library.Sublist"
begin

section \<open>Python values\<close>

text \<open>
  A Python \<open>str\<close> is a sequence of Unicode code points; \<open>len\<close>, slicing and
  \<open>rstrip\<close> count code points, so a string is a list of code points here. The code
  points written as numbers below: 10 newline, 32 space, 33 \<open>!\<close>, 42 \<open>*\<close>,
  45 \<open>-\<close>, 46 \<open>.\<close>, 48 to 57 the digits, 58 \<open>:\<close>, 61 \<open>=\<close>, 63 \<open>?\<close>,
  91 \<open>[\<close>, 93 \<open>]\<close> and 95 \<open>_\<close>. \<open>str_of\<close> turns an ASCII literal into such a
  list.

  A Python \<open>float\<close> is a binary64 number. A finite one is modelled by the real
  number it denotes, and an arithmetic operation on floats by the exact operation
  followed by \<open>round64\<close>, the rounding to the nearest binary64 number.
\<close>

type_synonym pystr = "nat list"

definition str_of :: "string \<Rightarrow> pystr" where
  "str_of s = map of_char s"

subsection \<open>Floats\<close>

text \<open>\<open>int.bit_length\<close>: the number of binary digits of a natural number.\<close>

fun bit_length :: "nat \<Rightarrow> nat" where
  "bit_length n = (if n = 0 then 0 else Suc (bit_length (n div 2)))"

declare bit_length.simps [simp del]

text \<open>
  The binary exponent of a number \<open>x\<close> other than zero: the \<open>e\<close> with
  \<open>2 ^ e \<le> \<bar>x\<bar> < 2 ^ (e + 1)\<close>.
\<close>

definition exponent :: "real \<Rightarrow> int" where
  "exponent x =
     (if 1 \<le> \<bar>x\<bar> then int (bit_length (nat \<lfloor>\<bar>x\<bar>\<rfloor>)) - 1
      else - int (bit_length (nat (\<lceil>1 / \<bar>x\<bar>\<rceil> - 1))))"

text \<open>The nearest integer, the even one of the two when they are equally near.\<close>

definition round_half_even :: "real \<Rightarrow> int" where
  "round_half_even q =
     (let f = \<lfloor>q\<rfloor>; d = q - of_int f
      in if d < 1 / 2 then f else if 1 / 2 < d then f + 1 else if even f then f else f + 1)"

text \<open>
  The nearest binary64 number, ties to the even significand. A binary64 number has a
  significand of 53 binary digits: a number of exponent \<open>e\<close> is rounded to a multiple
  of \<open>2 ^ (e - 52)\<close>, and below the normal range to a multiple of \<open>2 ^ - 1074\<close>. The
  model has no infinity: a result beyond the largest binary64 number is rounded as if
  the exponents went on. \<open>_format_timestamp\<close> on a finite argument that is not negative
  has no such result, and the comparison of a difference with 1.5 in \<open>save_transcript\<close>
  gives the same answer for it as for an infinity.
\<close>

definition round64 :: "real \<Rightarrow> real" where
  "round64 x =
     (if x = 0 then 0
      else (let ulp = 2 powi (max (exponent x - 52) (- 1074))
            in of_int (round_half_even (x / ulp)) * ulp))"

text \<open>\<open>int(x)\<close> on a float truncates towards zero.\<close>

definition py_int :: "real \<Rightarrow> int" where
  "py_int x = (if 0 \<le> x then \<lfloor>x\<rfloor> else \<lceil>x\<rceil>)"

text \<open>
  \<open>x // y\<close> and \<open>x % y\<close> on floats, for a divisor that is not zero, as
  \<open>float_floor_div\<close> and \<open>float_rem\<close> of CPython compute them. Both start from the C
  function \<open>fmod\<close>, whose result is exact: \<open>x\<close> minus \<open>y\<close> times the quotient
  truncated towards zero. The quotient \<open>(vx - mod) / wx\<close> is rounded twice, after the
  subtraction and after the division, and then snapped to the nearest whole number.
\<close>

definition fmod :: "real \<Rightarrow> real \<Rightarrow> real" where
  "fmod x y = x - y * of_int (py_int (x / y))"

definition py_floordiv :: "real \<Rightarrow> real \<Rightarrow> real" where
  "py_floordiv vx wx =
     (let md = fmod vx wx;
          dv = round64 (round64 (vx - md) / wx);
          dv = (if md \<noteq> 0 \<and> (wx < 0) \<noteq> (md < 0) then round64 (dv - 1) else dv)
      in if dv \<noteq> 0
         then (let floordiv = of_int \<lfloor>dv\<rfloor>
               in if 1 / 2 < round64 (dv - floordiv) then round64 (floordiv + 1) else floordiv)
         else 0)"

definition py_mod :: "real \<Rightarrow> real \<Rightarrow> real" where
  "py_mod vx wx =
     (let md = fmod vx wx
      in if md \<noteq> 0 \<and> (wx < 0) \<noteq> (md < 0) then round64 (md + wx) else md)"

subsection \<open>Strings\<close>

text \<open>
  \<open>str.isspace\<close> on one code point: the code points whose bidirectional type is
  WS, B or S, or whose category is Zs.
\<close>

definition isspace :: "nat \<Rightarrow> bool" where
  "isspace c \<longleftrightarrow>
     (9 \<le> c \<and> c \<le> 13) \<or> (28 \<le> c \<and> c \<le> 32) \<or> c = 133 \<or> c = 160 \<or> c = 5760 \<or>
     (8192 \<le> c \<and> c \<le> 8202) \<or> c = 8232 \<or> c = 8233 \<or> c = 8239 \<or> c = 8287 \<or> c = 12288"

definition lstrip :: "pystr \<Rightarrow> pystr" where
  "lstrip s = dropWhile isspace s"

definition rstrip :: "pystr \<Rightarrow> pystr" where
  "rstrip s = rev (dropWhile isspace (rev s))"

definition strip :: "pystr \<Rightarrow> pystr" where
  "strip s = rstrip (lstrip s)"

text \<open>\<open>sep.join(xs)\<close>.\<close>

fun join :: "pystr \<Rightarrow> pystr list \<Rightarrow> pystr" where
  "join sep [] = []"
| "join sep [x] = x"
| "join sep (x # y # ys) = x @ sep @ join sep (y # ys)"

text \<open>
  \<open>str.lower\<close>, as far as a comparison with an ASCII string can tell: the ASCII capitals
  and the Kelvin sign (U+212A) are the only code points whose lower case is an ASCII
  letter; every other code point beyond ASCII stays beyond ASCII and is left as it is.
\<close>

definition lower :: "pystr \<Rightarrow> pystr" where
  "lower s = map (\<lambda>c. if 65 \<le> c \<and> c \<le> 90 then c + 32 else if c = 8490 then 107 else c) s"

text \<open>\<open>s.rfind(c)\<close> for one code point: the last index of \<open>c\<close>, \<open>None\<close> for Python's -1.\<close>

definition rfind :: "pystr \<Rightarrow> nat \<Rightarrow> nat option" where
  "rfind s c =
     (if c \<in> set s then Some (length s - 1 - length (takeWhile (\<lambda>x. x \<noteq> c) (rev s))) else None)"

text \<open>Decimal digits of a natural number, most significant first (\<open>str(n)\<close>).\<close>

fun dec :: "nat \<Rightarrow> pystr" where
  "dec n = (if n < 10 then [48 + n] else dec (n div 10) @ [48 + n mod 10])"

declare dec.simps [simp del]

definition zfill :: "nat \<Rightarrow> pystr \<Rightarrow> pystr" where
  "zfill w s = replicate (w - length s) 48 @ s"

text \<open>
  The format specification \<open>02d\<close>: the sign, then the digits filled with zeros on
  their left up to a total width of two.
\<close>

definition fmt_02d :: "int \<Rightarrow> pystr" where
  "fmt_02d n = (if n < 0 then 45 # dec (nat (- n)) else zfill 2 (dec (nat n)))"

subsection \<open>\<open>datetime\<close>\<close>

record datetime =
  year :: nat
  month :: nat
  day :: nat
  hour :: nat
  minute :: nat
  second :: nat

text \<open>
  The readings of the clock: the values \<open>datetime.now()\<close> can return from the year 1000
  on, where \<open>%Y\<close> is the same four digits on every platform.
\<close>

definition datetime_ok :: "datetime \<Rightarrow> bool" where
  "datetime_ok t \<longleftrightarrow>
     1000 \<le> year t \<and> year t \<le> 9999 \<and> 1 \<le> month t \<and> month t \<le> 12 \<and> 1 \<le> day t \<and> day t \<le> 31 \<and>
     hour t < 24 \<and> minute t < 60 \<and> second t < 60"

text \<open>
  \<open>strftime("%Y%m%d_%H%M%S")\<close> and \<open>strftime('%Y-%m-%d %H:%M:%S')\<close>. \<open>%Y\<close> is the
  year in decimal, which the C library does not fill with zeros; the other fields have
  two digits.
\<close>

definition strftime_compact :: "datetime \<Rightarrow> pystr" where
  "strftime_compact t =
     dec (year t) @ zfill 2 (dec (month t)) @ zfill 2 (dec (day t)) @ str_of ''_'' @
     zfill 2 (dec (hour t)) @ zfill 2 (dec (minute t)) @ zfill 2 (dec (second t))"

definition strftime_date :: "datetime \<Rightarrow> pystr" where
  "strftime_date t =
     dec (year t) @ str_of ''-'' @ zfill 2 (dec (month t)) @ str_of ''-'' @
     zfill 2 (dec (day t)) @ str_of '' '' @
     zfill 2 (dec (hour t)) @ str_of '':'' @ zfill 2 (dec (minute t)) @ str_of '':'' @
     zfill 2 (dec (second t))"

section \<open>\<open>TranscriberApp._format_timestamp\<close>\<close>

definition format_timestamp :: "real \<Rightarrow> pystr" where
  "format_timestamp seconds =
     (let hours = py_int (py_floordiv seconds 3600);
          minutes = py_int (py_floordiv (py_mod seconds 3600) 60);
          secs = py_int (py_mod seconds 60)
      in fmt_02d hours @ str_of '':'' @ fmt_02d minutes @ str_of '':'' @ fmt_02d secs)"

section \<open>\<open>TranscriberApp.save_transcript\<close>\<close>

text \<open>
  The result of the speech engine: \<open>result['language']\<close>, \<open>result['text']\<close> and
  \<open>result['segments']\<close>, each segment with \<open>'start'\<close>, \<open>'end'\<close> and \<open>'text'\<close>.
\<close>

record segment =
  seg_start :: real
  seg_end :: real
  seg_text :: pystr

record transcription =
  language :: pystr
  full_text :: pystr
  segments :: "segment list"

subsection \<open>The file names\<close>

text \<open>
  \<open>str.isalnum\<close> on one code point is a table of the Unicode database; the functions
  that filter the title take it as the parameter \<open>isalnum\<close>. Its ASCII part:
\<close>

definition ascii_isalnum :: "nat \<Rightarrow> bool" where
  "ascii_isalnum c \<longleftrightarrow> (48 \<le> c \<and> c \<le> 57) \<or> (65 \<le> c \<and> c \<le> 90) \<or> (97 \<le> c \<and> c \<le> 122)"

text \<open>The characters the generator expression keeps: space, hyphen, underscore.\<close>

definition keeps :: "(nat \<Rightarrow> bool) \<Rightarrow> nat \<Rightarrow> bool" where
  "keeps isalnum c \<longleftrightarrow> isalnum c \<or> c = 32 \<or> c = 45 \<or> c = 95"

definition safe_title :: "(nat \<Rightarrow> bool) \<Rightarrow> pystr \<Rightarrow> pystr" where
  "safe_title isalnum video_title = take 50 (rstrip (filter (keeps isalnum) video_title))"

text \<open>The common part \<open>{safe_title}_{timestamp}\<close> of the three file names.\<close>

definition file_stem :: "(nat \<Rightarrow> bool) \<Rightarrow> pystr \<Rightarrow> datetime \<Rightarrow> pystr" where
  "file_stem isalnum video_title now =
     safe_title isalnum video_title @ str_of ''_'' @ strftime_compact now"

subsection \<open>The complete transcription\<close>

definition separator :: pystr where
  "separator = replicate 80 61 @ [10, 10]"

definition full_text_body :: "pystr \<Rightarrow> pystr \<Rightarrow> datetime \<Rightarrow> transcription \<Rightarrow> pystr" where
  "full_text_body video_title source_url now result =
     str_of ''Transcription of: '' @ video_title @ [10] @
     str_of ''Source: '' @ source_url @ [10] @
     str_of ''Date: '' @ strftime_date now @ [10] @
     str_of ''Language: '' @ language result @ [10] @
     separator @
     strip (full_text result)"

subsection \<open>The transcription with timestamps\<close>

definition timestamped_header :: "pystr \<Rightarrow> pystr \<Rightarrow> pystr" where
  "timestamped_header video_title source_url =
     str_of ''Transcription with timestamps of: '' @ video_title @ [10] @
     str_of ''Source: '' @ source_url @ [10] @
     separator"

text \<open>What one iteration of the loop over the segments writes.\<close>

definition timestamped_block :: "segment \<Rightarrow> pystr" where
  "timestamped_block segment =
     (let start_time = format_timestamp (seg_start segment);
          end_time = format_timestamp (seg_end segment);
          text = strip (seg_text segment)
      in str_of ''['' @ start_time @ str_of '' --> '' @ end_time @ str_of '']'' @ [10] @
         text @ [10, 10])"

definition timestamped_blocks :: "segment list \<Rightarrow> pystr" where
  "timestamped_blocks segs = concat (map timestamped_block segs)"

definition timestamped_body :: "pystr \<Rightarrow> pystr \<Rightarrow> transcription \<Rightarrow> pystr" where
  "timestamped_body video_title source_url result =
     timestamped_header video_title source_url @ timestamped_blocks (segments result)"


definition is_field :: "pystr \<Rightarrow> bool" where
  "is_field s \<longleftrightarrow> s \<noteq> [] \<and> list_all (\<lambda>c. c = 45 \<or> (48 \<le> c \<and> c \<le> 57)) s"

definition is_stamp :: "pystr \<Rightarrow> bool" where
  "is_stamp s =
     (let hours = takeWhile (\<lambda>x. x \<noteq> 58) s;
          rest = drop 1 (dropWhile (\<lambda>x. x \<noteq> 58) s);
          minutes = takeWhile (\<lambda>x. x \<noteq> 58) rest;
          secs = drop 1 (dropWhile (\<lambda>x. x \<noteq> 58) rest)
      in s = hours @ [58] @ minutes @ [58] @ secs \<and>
         is_field hours \<and> is_field minutes \<and> is_field secs)"

definition parse_stamps :: "pystr \<Rightarrow> (pystr \<times> pystr) option" where
  "parse_stamps line =
     (case line of
        [] \<Rightarrow> None
      | c # rest \<Rightarrow>
          (let start_time = takeWhile (\<lambda>x. x \<noteq> 32) rest;
               rest1 = dropWhile (\<lambda>x. x \<noteq> 32) rest;
               rest2 = drop 5 rest1;
               end_time = takeWhile (\<lambda>x. x \<noteq> 93) rest2;
               rest3 = dropWhile (\<lambda>x. x \<noteq> 93) rest2
           in if c = 91 \<and> take 5 rest1 = str_of '' --> '' \<and> rest3 = str_of '']'' \<and>
                 is_stamp start_time \<and> is_stamp end_time
              then Some (start_time, end_time) else None))"

text \<open>
  \<open>parse_text stamps text ls\<close> reads the rest of the block whose stamp line gave
  \<open>stamps\<close> and whose text lines read so far are \<open>text\<close>, and then the blocks after it.
\<close>

fun parse_text :: "pystr \<times> pystr \<Rightarrow> pystr list \<Rightarrow> pystr list \<Rightarrow>
    (pystr \<times> pystr \<times> pystr) list option" where
  "parse_text stamps text (l # next # rest) =
     (if l = [] \<and> text \<noteq> [] \<and> next = [] \<and> rest = []
      then Some [(fst stamps, snd stamps, join [10] text)]
      else if l = [] \<and> text \<noteq> [] then
        (case parse_stamps next of
           Some stamps' \<Rightarrow>
             map_option ((#) (fst stamps, snd stamps, join [10] text)) (parse_text stamps' [] rest)
         | None \<Rightarrow> parse_text stamps (text @ [l]) (next # rest))
      else parse_text stamps (text @ [l]) (next # rest))"
| "parse_text stamps text _ = None"





text \<open>
  Reading a stamp \<open>H:MM:SS\<close> back as a number of whole seconds: the value of a
  string of decimal digits, and the three fields between the colons.
\<close>

definition undec :: "pystr \<Rightarrow> nat" where
  "undec s = foldl (\<lambda>a d. 10 * a + (d - 48)) 0 s"


subsection \<open>The lyrics format\<close>

definition lyrics_header :: "pystr \<Rightarrow> pystr \<Rightarrow> pystr" where
  "lyrics_header video_title source_url =
     str_of ''Transcription of: '' @ video_title @ [10] @
     str_of ''Source: '' @ source_url @ [10] @
     separator"

text \<open>
  The state of the loop: the list \<open>current_paragraph\<close>, and the paragraphs written to
  the file so far, oldest first. Each \<open>f.write\<close> of the loop writes one paragraph.
\<close>

record lyrics_state =
  current_paragraph :: "pystr list"
  paragraphs :: "pystr list list"

definition lyrics_init :: lyrics_state where
  "lyrics_init = \<lparr>current_paragraph = [], paragraphs = []\<rparr>"

text \<open>The body of the loop, at index \<open>i\<close> of \<open>enumerate(result['segments'])\<close>.\<close>

definition lyrics_step :: "segment list \<Rightarrow> nat \<Rightarrow> lyrics_state \<Rightarrow> lyrics_state" where
  "lyrics_step segs i st =
     (let segment = segs ! i;
          text = strip (seg_text segment);
          current = current_paragraph st @ [text];
          is_long_pause =
            (if i + 1 < length segs
             then (let next_segment = segs ! (i + 1);
                       pause_duration = round64 (seg_start next_segment - seg_end segment)
                   in 1.5 < pause_duration)
             else False);
          is_paragraph_full = (6 \<le> length current);
          is_last_segment = (int i = int (length segs) - 1)
      in if is_long_pause \<or> is_paragraph_full \<or> is_last_segment
         then \<lparr>current_paragraph = [], paragraphs = paragraphs st @ [current]\<rparr>
         else \<lparr>current_paragraph = current, paragraphs = paragraphs st\<rparr>)"

text \<open>
  The state after the first \<open>n\<close> iterations (for \<open>n\<close> up to the number of segments,
  so that every index the body reads is in range), and the paragraphs after the whole
  loop.
\<close>

definition lyrics_state_at :: "segment list \<Rightarrow> nat \<Rightarrow> lyrics_state" where
  "lyrics_state_at segs n = fold (lyrics_step segs) [0..<n] lyrics_init"

definition lyrics_paragraphs :: "segment list \<Rightarrow> pystr list list" where
  "lyrics_paragraphs segs = paragraphs (lyrics_state_at segs (length segs))"

text \<open>\<open>f.write(f"{paragraph_text}\n\n")\<close> with \<open>paragraph_text = '\n'.join(current_paragraph)\<close>.\<close>

definition lyrics_paragraph_text :: "pystr list \<Rightarrow> pystr" where
  "lyrics_paragraph_text p = join [10] p @ [10, 10]"

definition lyrics_body :: "pystr \<Rightarrow> pystr \<Rightarrow> transcription \<Rightarrow> pystr" where
  "lyrics_body video_title source_url result =
     lyrics_header video_title source_url @
     concat (map lyrics_paragraph_text (lyrics_paragraphs (segments result)))"

subsection \<open>The three files\<close>

record saved_files =
  txt_file :: pystr
  txt_content :: pystr
  srt_file :: pystr
  srt_content :: pystr
  lyrics_file :: pystr
  lyrics_content :: pystr

text \<open>
  \<open>save_transcript\<close> reads the clock twice, for the file names (\<open>now\<close>) and for the
  date line of the first file (\<open>now'\<close>). The names are relative to \<open>transcripts_dir\<close>.
\<close>

definition save_transcript ::
  "(nat \<Rightarrow> bool) \<Rightarrow> datetime \<Rightarrow> datetime \<Rightarrow> pystr \<Rightarrow> transcription \<Rightarrow> pystr \<Rightarrow> saved_files" where
  "save_transcript isalnum now now' video_title result source_url =
     (let base = file_stem isalnum video_title now
      in \<lparr>txt_file = base @ str_of ''.txt'',
          txt_content = full_text_body video_title source_url now' result,
          srt_file = base @ str_of ''_timestamps.txt'',
          srt_content = timestamped_body video_title source_url result,
          lyrics_file = base @ str_of ''_lyrics.txt'',
          lyrics_content = lyrics_body video_title source_url result\<rparr>)"

section \<open>\<open>TranscriberApp.download_audio\<close>: locating the downloaded file\<close>

subsection \<open>\<open>pathlib\<close>\<close>

text \<open>
  The template \<open>outtmpl\<close> puts every download directly under \<open>downloads_dir\<close>, and the
  pattern of the fallback is built under \<open>downloads_dir\<close> too: a path of this step is
  the name of a file in that directory. \<open>path_suffix\<close> (the property \<open>suffix\<close>),
  \<open>stem\<close> and \<open>with_suffix\<close> are those of \<open>PurePath\<close> on the final component.
\<close>

definition path_suffix :: "pystr \<Rightarrow> pystr" where
  "path_suffix name =
     (case rfind name 46 of
        None \<Rightarrow> []
      | Some i \<Rightarrow> if 0 < i \<and> i < length name - 1 then drop i name else [])"

definition stem :: "pystr \<Rightarrow> pystr" where
  "stem name =
     (case rfind name 46 of
        None \<Rightarrow> name
      | Some i \<Rightarrow> if 0 < i \<and> i < length name - 1 then take i name else name)"

definition with_suffix :: "pystr \<Rightarrow> pystr \<Rightarrow> pystr" where
  "with_suffix name suf =
     (let old_suffix = path_suffix name
      in if old_suffix = [] then name @ suf
         else take (length name - length old_suffix) name @ suf)"

subsection \<open>\<open>fnmatch\<close> and \<open>glob\<close>\<close>

text \<open>
  \<open>fnmatch.translate\<close> reads a pattern from left to right: \<open>*\<close>, \<open>?\<close>, a bracket
  expression when a closing bracket follows, and literal characters. A bracket expression
  keeps its text between the brackets.
\<close>

datatype glob_item = Star | Question | Bracket pystr | Literal nat

text \<open>
  The index of the bracket that closes an expression, in the pattern after its opening
  bracket: a leading \<open>!\<close> and a \<open>]\<close> right after it are skipped first.
\<close>

definition bracket_end :: "pystr \<Rightarrow> nat option" where
  "bracket_end pat =
     (let j0 = (if 0 < length pat \<and> pat ! 0 = 33 then 1 else 0);
          j1 = (if j0 < length pat \<and> pat ! j0 = 93 then j0 + 1 else j0);
          rest = drop j1 pat
      in if 93 \<in> set rest then Some (j1 + length (takeWhile (\<lambda>x. x \<noteq> 93) rest)) else None)"

function translate :: "pystr \<Rightarrow> glob_item list" where
  "translate [] = []"
| "translate (c # pat) =
     (if c = 42 then Star # translate pat
      else if c = 63 then Question # translate pat
      else if c = 91 then
        (case bracket_end pat of
           None \<Rightarrow> Literal 91 # translate pat
         | Some j \<Rightarrow> Bracket (take j pat) # translate (drop (Suc j) pat))
      else Literal c # translate pat)"
  by pat_completeness auto
termination
  by (relation "measure length") auto

text \<open>
  The members of a bracket expression: \<open>x-y\<close> is the range from \<open>x\<close> to \<open>y\<close> (empty
  when \<open>y\<close> is below \<open>x\<close>), every other character stands for itself.
\<close>

fun in_ranges :: "pystr \<Rightarrow> nat \<Rightarrow> bool" where
  "in_ranges (x # m # y # rest) c =
     (if m = 45 then (x \<le> c \<and> c \<le> y) \<or> in_ranges rest c
      else c = x \<or> in_ranges (m # y # rest) c)"
| "in_ranges (x # rest) c = (c = x \<or> in_ranges rest c)"
| "in_ranges [] c = False"

definition in_bracket :: "pystr \<Rightarrow> nat \<Rightarrow> bool" where
  "in_bracket stuff c =
     (case stuff of
        [] \<Rightarrow> False
      | x # body \<Rightarrow> if x = 33 then \<not> in_ranges body c else in_ranges stuff c)"

text \<open>The whole name must match: \<open>*\<close> is any string, \<open>?\<close> any character.\<close>

fun items_match :: "glob_item list \<Rightarrow> pystr \<Rightarrow> bool" where
  "items_match [] s = (s = [])"
| "items_match (Star # ps) [] = items_match ps []"
| "items_match (Star # ps) (c # s) = (items_match ps (c # s) \<or> items_match (Star # ps) s)"
| "items_match (Question # ps) [] = False"
| "items_match (Question # ps) (c # s) = items_match ps s"
| "items_match (Bracket stuff # ps) [] = False"
| "items_match (Bracket stuff # ps) (c # s) = (in_bracket stuff c \<and> items_match ps s)"
| "items_match (Literal x # ps) [] = False"
| "items_match (Literal x # ps) (c # s) = (c = x \<and> items_match ps s)"

definition fnmatch :: "pystr \<Rightarrow> pystr \<Rightarrow> bool" where
  "fnmatch name pat = items_match (translate pat) name"

text \<open>
  The directory \<open>downloads_dir\<close> after the download: its entries in the order the
  operating system lists them, each with the time \<open>os.path.getctime\<close> returns for it.
  Names are compared as they are written (a file system that respects case), and
  \<open>Path.exists\<close> holds for exactly the names listed.
\<close>

type_synonym directory = "(pystr \<times> real) list"

definition path_exists :: "directory \<Rightarrow> pystr \<Rightarrow> bool" where
  "path_exists dir name \<longleftrightarrow> name \<in> set (map fst dir)"

definition ishidden :: "pystr \<Rightarrow> bool" where
  "ishidden s = (case s of [] \<Rightarrow> False | c # _ \<Rightarrow> c = 46)"

text \<open>
  \<open>glob.glob\<close> of a pattern of one component under \<open>downloads_dir\<close> that has a
  wildcard: the names that match, in the order of the listing, without the hidden ones
  unless the pattern itself starts with a dot.
\<close>

definition glob :: "directory \<Rightarrow> pystr \<Rightarrow> directory" where
  "glob dir pattern =
     filter (\<lambda>e. fnmatch (fst e) pattern)
       (if ishidden pattern then dir else filter (\<lambda>e. \<not> ishidden (fst e)) dir)"

text \<open>\<open>max(xs, key=k)\<close> on a list that is not empty: the first element of largest key.\<close>

definition max_by :: "('a \<Rightarrow> real) \<Rightarrow> 'a \<Rightarrow> 'a list \<Rightarrow> 'a" where
  "max_by key x xs = fold (\<lambda>y m. if key m < key y then y else m) xs x"

subsection \<open>The step\<close>

text \<open>
  \<open>audio_quality\<close> is \<open>'aac'\<close> or any other string; the interface passes
  \<open>'original'\<close> or \<open>'aac'\<close>.
\<close>

datatype quality = Original | Aac

definition audio_exts :: "pystr list" where
  "audio_exts = map str_of
     [''.mp3'', ''.m4a'', ''.opus'', ''.webm'', ''.ogg'', ''.wav'', ''.flac'', ''.aac'',
      ''.mp4'', ''.mkv'']"

text \<open>
  The failure the specification names for this step. \<open>download_audio\<close> has no
  \<open>raise\<close>: every branch of it returns, so every branch of the model is an \<open>Inr\<close>.
\<close>

datatype error = ArtifactNotFound

text \<open>
  From \<open>downloaded_file = Path(ydl.prepare_filename(info))\<close> to the \<open>return\<close>, on the
  directory as the download left it.
\<close>

definition download_audio ::
  "directory \<Rightarrow> quality \<Rightarrow> pystr \<Rightarrow> pystr \<Rightarrow> error + (pystr \<times> pystr)" where
  "download_audio dir audio_quality downloaded_file video_title =
     (let audio_file =
            (if audio_quality = Aac then with_suffix downloaded_file (str_of ''.m4a'')
             else downloaded_file)
      in if \<not> path_exists dir audio_file then
           (let base_name = stem downloaded_file;
                pattern = base_name @ str_of ''.*'';
                files = glob dir pattern;
                audio_files = filter (\<lambda>f. lower (path_suffix (fst f)) \<in> set audio_exts) files
            in case audio_files of
                 [] \<Rightarrow> Inr (audio_file, video_title)
               | f # fs \<Rightarrow> Inr (fst (max_by snd f fs), video_title))
         else Inr (audio_file, video_title))"

text \<open>
  Three notions to state what the step returns. The candidate is the path the step
  looks for first (the value of \<open>audio_file\<close> at the test \<open>audio_file.exists()\<close>). A
  stem is plain when it has none of the characters \<open>*\<close>, \<open>?\<close> and \<open>[\<close>, which
  \<open>glob\<close> reads as wildcards. A name shares a stem when it is the stem, a dot, and
  anything after it (the same base name with any extension).
\<close>

definition candidate :: "quality \<Rightarrow> pystr \<Rightarrow> pystr" where
  "candidate audio_quality downloaded_file =
     (if audio_quality = Aac then with_suffix downloaded_file (str_of ''.m4a'')
      else downloaded_file)"

definition plain :: "pystr \<Rightarrow> bool" where
  "plain s \<longleftrightarrow> 42 \<notin> set s \<and> 63 \<notin> set s \<and> 91 \<notin> set s"

definition shares_stem :: "pystr \<Rightarrow> pystr \<Rightarrow> bool" where
  "shares_stem base_name name \<longleftrightarrow> prefix (base_name @ str_of ''.'') name"

text \<open>An entry the fallback accepts for the stem \<open>base_name\<close>, when the stem is plain.\<close>

definition acceptable :: "pystr \<Rightarrow> pystr \<times> real \<Rightarrow> bool" where
  "acceptable base_name e \<longleftrightarrow>
     shares_stem base_name (fst e) \<and> lower (path_suffix (fst e)) \<in> set audio_exts"

section \<open>Properties of the float operations\<close>

lemma bit_length_0: "bit_length 0 = 0" by (simp add: bit_length.simps)

lemma bit_length_bounds: "0 < n \<Longrightarrow> 2 ^ (bit_length n - 1) \<le> n \<and> n < 2 ^ bit_length n"
proof (induction n rule: bit_length.induct)
  case (1 n)
  show ?case
  proof (cases "n div 2 = 0")
    case True
    then have "n = 1" using 1(2) by linarith
    then show ?thesis by (simp add: bit_length.simps)
  next
    case False
    then have IH: "2 ^ (bit_length (n div 2) - 1) \<le> n div 2" "n div 2 < 2 ^ bit_length (n div 2)"
      using 1 by simp_all
    have pos: "0 < bit_length (n div 2)" using False by (subst bit_length.simps) simp
    have b: "bit_length n = Suc (bit_length (n div 2))" using 1(2) by (subst bit_length.simps) simp
    have "2 * 2 ^ (bit_length (n div 2) - 1) \<le> n" using IH(1) by linarith
    moreover have "2 * 2 ^ (bit_length (n div 2) - 1) = (2::nat) ^ bit_length (n div 2)"
      using pos by (cases "bit_length (n div 2)") simp_all
    moreover have "n < 2 * 2 ^ bit_length (n div 2)" using IH(2) by linarith
    ultimately show ?thesis by (simp add: b)
  qed
qed

lemma bit_length_le: "n < 2 ^ k \<Longrightarrow> bit_length n \<le> k"
proof (cases "n = 0")
  case True
  then show ?thesis by (simp add: bit_length_0)
next
  case False
  assume "n < 2 ^ k"
  moreover have "2 ^ (bit_length n - 1) \<le> n" using bit_length_bounds[of n] False by simp
  ultimately have "(2::nat) ^ (bit_length n - 1) < 2 ^ k" by linarith
  then have "bit_length n - 1 < k" by (rule power_less_imp_less_exp[rotated]) simp
  then show ?thesis by simp
qed

lemma exponent_bounds:
  assumes "x \<noteq> 0"
  shows "2 powi exponent x \<le> \<bar>x\<bar> \<and> \<bar>x\<bar> < 2 powi (exponent x + 1)"
proof (cases "1 \<le> \<bar>x\<bar>")
  case True
  define n where "n = nat \<lfloor>\<bar>x\<bar>\<rfloor>"
  have n: "0 < n" "real n \<le> \<bar>x\<bar>" "\<bar>x\<bar> < real n + 1" using True unfolding n_def by linarith+
  have e: "exponent x = int (bit_length n) - 1" using True by (simp add: exponent_def n_def)
  have pos: "0 < bit_length n" using n(1) by (subst bit_length.simps) simp
  note b = bit_length_bounds[OF n(1)]
  have e1: "exponent x = int (bit_length n - 1)" using pos e by simp
  have e2: "exponent x + 1 = int (bit_length n)" using e by simp
  have "real (2 ^ (bit_length n - 1)) \<le> real n" using b by (simp only: of_nat_le_iff)
  then have r1: "(2::real) ^ (bit_length n - 1) \<le> real n" by simp
  have p1: "2 powi int (bit_length n - 1) = (2::real) ^ (bit_length n - 1)" by simp
  have lo: "2 powi exponent x \<le> \<bar>x\<bar>" using n(2) r1 unfolding e1 p1 by linarith
  have "n + 1 \<le> 2 ^ bit_length n" using b by simp
  then have "real (n + 1) \<le> real (2 ^ bit_length n)" by (simp only: of_nat_le_iff)
  then have r2: "real n + 1 \<le> (2::real) ^ bit_length n" by simp
  have p2: "2 powi int (bit_length n) = (2::real) ^ bit_length n" by simp
  have hi: "\<bar>x\<bar> < 2 powi (exponent x + 1)" using n(3) r2 unfolding e2 p2 by linarith
  show ?thesis using lo hi by simp
next
  case False
  define y where "y = 1 / \<bar>x\<bar>"
  define k where "k = nat (\<lceil>y\<rceil> - 1)"
  have x: "0 < \<bar>x\<bar>" "\<bar>x\<bar> < 1" using assms False by simp_all
  have y: "1 < y" using x by (simp add: y_def)
  have c: "2 \<le> \<lceil>y\<rceil>" using y by linarith
  have k: "0 < k" "real k < y" "y \<le> real k + 1" using c unfolding k_def by linarith+
  have e: "exponent x = - int (bit_length k)" using False by (simp add: exponent_def k_def y_def)
  have pos: "0 < bit_length k" using k(1) by (subst bit_length.simps) simp
  note b = bit_length_bounds[OF k(1)]
  have "real (2 ^ (bit_length k - 1)) \<le> real k" using b by (simp only: of_nat_le_iff)
  then have "(2::real) ^ (bit_length k - 1) \<le> real k" by simp
  then have lo: "2 ^ (bit_length k - 1) < y" using k(2) by linarith
  have "k + 1 \<le> 2 ^ bit_length k" using b by simp
  then have "real (k + 1) \<le> real (2 ^ bit_length k)" by (simp only: of_nat_le_iff)
  then have "real k + 1 \<le> (2::real) ^ bit_length k" by simp
  then have hi: "y \<le> 2 ^ bit_length k" using k(3) by linarith
  have xy: "\<bar>x\<bar> = 1 / y" by (simp add: y_def)
  have A: "(2::real) powi exponent x = 1 / 2 ^ bit_length k"
    unfolding e by (simp add: power_int_minus field_simps)
  have e2: "exponent x + 1 = - int (bit_length k - 1)" using pos e by simp
  have B: "(2::real) powi (exponent x + 1) = 1 / 2 ^ (bit_length k - 1)"
    unfolding e2 by (simp add: power_int_minus field_simps)
  have "1 / 2 ^ bit_length k \<le> 1 / y" using hi y by (simp add: frac_le)
  moreover have "1 / y < 1 / 2 ^ (bit_length k - 1)" using lo by (simp add: frac_less2)
  ultimately show ?thesis unfolding A B xy by simp
qed


lemma round_half_even_of_int: "round_half_even (of_int m) = m"
  by (simp add: round_half_even_def)

lemma round_half_even_le: "q \<le> of_int N \<Longrightarrow> round_half_even q \<le> N"
proof -
  assume q: "q \<le> of_int N"
  have f: "\<lfloor>q\<rfloor> \<le> N" using q by (simp add: floor_le_iff)
  show ?thesis
  proof (cases "q = of_int \<lfloor>q\<rfloor>")
    case True
    then show ?thesis using f by (simp add: round_half_even_def)
  next
    case False
    then have "of_int \<lfloor>q\<rfloor> < q" using of_int_floor_le[of q] by linarith
    then have "of_int \<lfloor>q\<rfloor> < (of_int N :: real)" using q by linarith
    then have "\<lfloor>q\<rfloor> < N" by (simp only: of_int_less_iff)
    then show ?thesis using f by (simp add: round_half_even_def Let_def)
  qed
qed

lemma round64_exact:
  assumes "x = of_int m * 2 powi (max (exponent x - 52) (- 1074))"
  shows "round64 x = x"
proof (cases "x = 0")
  case True
  then show ?thesis by (simp add: round64_def)
next
  case False
  define ulp :: real where "ulp = 2 powi (max (exponent x - 52) (- 1074))"
  have pos: "0 < ulp" by (simp add: ulp_def)
  have x: "x = of_int m * ulp" using assms by (simp only: ulp_def)
  have "x / ulp = of_int m" using pos by (subst x) simp
  then have "of_int (round_half_even (x / ulp)) * ulp = x"
    by (simp only: round_half_even_of_int x[symmetric])
  then show ?thesis using False by (simp add: round64_def Let_def ulp_def)
qed

lemma exponent_less:
  assumes "x \<noteq> 0" and "\<bar>x\<bar> < 2 powi k"
  shows "exponent x < k"
proof (rule ccontr)
  assume "\<not> exponent x < k"
  then have "k \<le> exponent x" by simp
  then have "(2::real) powi k \<le> 2 powi exponent x" by (rule power_int_increasing) simp
  then show False using exponent_bounds[OF assms(1)] assms(2) by linarith
qed

lemma round64_of_int:
  assumes "\<bar>n\<bar> < 2 ^ 53"
  shows "round64 (of_int n) = of_int n"
proof (cases "n = 0")
  case True
  then show ?thesis by (simp add: round64_def)
next
  case False
  define x :: real where "x = of_int n"
  define u where "u = max (exponent x - 52) (- 1074)"
  have x0: "x \<noteq> 0" using False by (simp add: x_def)
  have "\<bar>x\<bar> = of_int \<bar>n\<bar>" by (simp add: x_def)
  also have "\<dots> < of_int (2 ^ 53)" using assms by (simp only: of_int_less_iff)
  finally have "\<bar>x\<bar> < 2 powi 53" by simp
  then have "exponent x < 53" using exponent_less[OF x0] by blast
  then have u: "u \<le> 0" by (simp add: u_def)
  define k where "k = nat (- u)"
  have uk: "u = - int k" using u by (simp add: k_def)
  have "(2::real) powi (- int k) = 1 / 2 ^ k"
    by (simp only: power_int_minus_divide power_int_of_nat)
  then have "x = of_int (n * 2 ^ k) * 2 powi u"
    unfolding uk by (simp add: x_def)
  then have "round64 x = x" unfolding u_def by (rule round64_exact)
  then show ?thesis by (simp only: x_def)
qed

lemma round64_nonpos: "x \<le> 0 \<Longrightarrow> round64 x \<le> 0"
proof -
  assume x: "x \<le> 0"
  define ulp :: real where "ulp = 2 powi (max (exponent x - 52) (- 1074))"
  have pos: "0 < ulp" by (simp add: ulp_def)
  have "x / ulp \<le> of_int 0" using x pos by (simp add: divide_nonpos_pos)
  then have "round_half_even (x / ulp) \<le> 0" by (rule round_half_even_le)
  then have "of_int (round_half_even (x / ulp)) * ulp \<le> 0"
    using pos by (simp add: mult_le_0_iff)
  then show ?thesis by (simp add: round64_def Let_def ulp_def)
qed

lemma round64_le_three_halves:
  assumes "x \<le> 3 / 2"
  shows "round64 x \<le> 3 / 2"
proof (cases "x \<le> 0")
  case True
  then show ?thesis using round64_nonpos[of x] by simp
next
  case False
  define u where "u = max (exponent x - 52) (- 1074)"
  define ulp :: real where "ulp = 2 powi u"
  have x0: "x \<noteq> 0" using False by simp
  have pos: "0 < ulp" by (simp add: ulp_def)
  have "\<bar>x\<bar> < 2 powi 1" using assms False by simp
  then have "exponent x < 1" using exponent_less[OF x0] by blast
  then have u: "u \<le> - 52" by (simp add: u_def)
  define k where "k = nat (- u - 1)"
  have uk: "u = - int (Suc k)" using u by (simp add: k_def)
  have "(2::real) powi (- int (Suc k)) = 1 / 2 ^ Suc k"
    by (simp only: power_int_minus_divide power_int_of_nat)
  then have th: "3 / 2 = of_int (3 * 2 ^ k) * ulp"
    unfolding ulp_def uk by simp
  have "x / ulp \<le> (3 / 2) / ulp" using assms pos by (intro divide_right_mono) simp_all
  also have "(3 / 2) / ulp = of_int (3 * 2 ^ k)" using pos by (subst th) simp
  finally have "round_half_even (x / ulp) \<le> 3 * 2 ^ k" by (rule round_half_even_le)
  then have "(of_int (round_half_even (x / ulp)) :: real) \<le> of_int (3 * 2 ^ k)"
    by (simp only: of_int_le_iff)
  then have "of_int (round_half_even (x / ulp)) * ulp \<le> of_int (3 * 2 ^ k) * ulp"
    using pos by (simp only: mult_le_cancel_right_pos)
  then have "of_int (round_half_even (x / ulp)) * ulp \<le> 3 / 2" by (simp only: th[symmetric])
  then show ?thesis using x0 by (simp add: round64_def Let_def ulp_def u_def)
qed

lemma round_half_even_ge: "of_int N \<le> q \<Longrightarrow> N \<le> round_half_even q"
proof -
  assume "of_int N \<le> q"
  then have "N \<le> \<lfloor>q\<rfloor>" by (simp add: le_floor_iff)
  then show ?thesis by (simp add: round_half_even_def Let_def)
qed

lemma exponent_unit:
  assumes "1 \<le> x" and "x < 2"
  shows "exponent x = 0"
proof -
  have "\<lfloor>x\<rfloor> = 1" using assms by linarith
  then have "nat \<lfloor>\<bar>x\<bar>\<rfloor> = 1" using assms by simp
  moreover have "bit_length 1 = 1" by (simp add: bit_length.simps)
  ultimately show ?thesis using assms by (simp add: exponent_def)
qed

lemma round64_unit:
  assumes "1 \<le> x" and "x < 2"
  shows "round64 x = of_int (round_half_even (x * 2 ^ 52)) / 2 ^ 52"
proof -
  have "(2::real) powi (- 52) = 1 / 2 ^ 52"
    using power_int_minus_divide[of "2::real" 52] by simp
  then show ?thesis
    using assms by (simp add: round64_def exponent_unit[OF assms] Let_def)
qed

lemma round64_ge_two:
  assumes "2 \<le> x"
  shows "2 \<le> round64 x"
proof -
  define e where "e = exponent x"
  define ulp :: real where "ulp = 2 powi (e - 52)"
  have x0: "x \<noteq> 0" using assms by simp
  have pos: "0 < ulp" by (simp add: ulp_def)
  note b = exponent_bounds[OF x0, folded e_def]
  have lt: "(2::real) powi 1 < 2 powi (e + 1)" using b assms by simp
  have e: "1 \<le> e"
  proof (rule ccontr)
    assume "\<not> 1 \<le> e"
    then have "e + 1 \<le> 1" by simp
    then have "(2::real) powi (e + 1) \<le> 2 powi 1" by (rule power_int_increasing) simp
    then show False using lt by simp
  qed
  then have u: "max (e - 52) (- 1074) = e - 52" by simp
  have p: "(2::real) powi e = 2 ^ 52 * ulp"
    unfolding ulp_def by (simp add: power_int_diff)
  have "2 powi e / ulp \<le> x / ulp" using b assms pos by (intro divide_right_mono) simp_all
  moreover have "2 powi e / ulp = of_int (2 ^ 52)" using pos by (subst p) simp
  ultimately have "of_int (2 ^ 52) \<le> x / ulp" by simp
  then have "2 ^ 52 \<le> round_half_even (x / ulp)" by (rule round_half_even_ge)
  then have "(of_int (2 ^ 52) :: real) \<le> of_int (round_half_even (x / ulp))"
    by (simp only: of_int_le_iff)
  then have "of_int (2 ^ 52) * ulp \<le> of_int (round_half_even (x / ulp)) * ulp"
    using pos by (simp only: mult_le_cancel_right_pos)
  then have "2 powi e \<le> of_int (round_half_even (x / ulp)) * ulp" using p by simp
  moreover have "(2::real) powi 1 \<le> 2 powi e" using e by (intro power_int_increasing) simp_all
  moreover have "round64 x = of_int (round_half_even (x / ulp)) * ulp"
    using x0 by (simp add: round64_def Let_def ulp_def e_def[symmetric] u)
  ultimately show ?thesis by simp
qed

text \<open>
  The comparison of \<open>save_transcript\<close>: a rounded number exceeds 1.5 exactly when the
  number itself exceeds the middle between 1.5 and the next binary64 number,
  \<open>1.5 + 2 ^ - 52\<close>; the middle itself is rounded to 1.5, whose significand is even.
\<close>

lemma round64_three_halves_iff: "3 / 2 < round64 x \<longleftrightarrow> 3 / 2 + 1 / 2 ^ 53 < x"
proof (cases "x \<le> 3 / 2")
  case True
  then show ?thesis using round64_le_three_halves[OF True] by simp
next
  case low: False
  show ?thesis
  proof (cases "x < 2")
    case False
    then show ?thesis using round64_ge_two[of x] by simp
  next
    case True
    have x: "1 \<le> x" "x < 2" using low True by simp_all
    define q where "q = x * 2 ^ 52"
    define N :: int where "N = 3 * 2 ^ 51"
    have r: "round64 x = of_int (round_half_even q) / 2 ^ 52"
      unfolding q_def by (rule round64_unit[OF x])
    have th: "(3::real) / 2 = of_int N / 2 ^ 52" by (simp add: N_def)
    have gt: "3 / 2 < round64 x \<longleftrightarrow> N < round_half_even q"
      unfolding r th by (simp add: divide_less_cancel)
    have q1: "of_int N < q" using low by (simp add: q_def N_def)
    have q2: "3 / 2 + 1 / 2 ^ 53 < x \<longleftrightarrow> of_int N + 1 / 2 < q" by (simp add: q_def N_def mult.commute)
    have evenN: "even N" by (simp add: N_def)
    show ?thesis
    proof (cases "of_int N + 1 / 2 < q")
      case True
      have "N + 1 \<le> round_half_even q"
      proof (cases "\<lfloor>q\<rfloor> = N")
        case True
        then show ?thesis using \<open>of_int N + 1 / 2 < q\<close> by (simp add: round_half_even_def Let_def)
      next
        case False
        have "N \<le> \<lfloor>q\<rfloor>" using q1 by (simp add: le_floor_iff)
        then have "N + 1 \<le> \<lfloor>q\<rfloor>" using False by simp
        then have "of_int (N + 1) \<le> q" by (simp only: le_floor_iff)
        then show ?thesis by (rule round_half_even_ge)
      qed
      then show ?thesis using True gt q2 by simp
    next
      case False
      have f: "\<lfloor>q\<rfloor> = N" using q1 False by linarith
      have "round_half_even q = N" using False evenN by (simp add: round_half_even_def Let_def f)
      then show ?thesis using False gt q2 by simp
    qed
  qed
qed

lemma fmod_nonneg:
  assumes "0 \<le> x" and "0 < y"
  shows "fmod x y = x - y * of_int \<lfloor>x / y\<rfloor>"
  using assms by (simp add: fmod_def py_int_def)

lemma py_mod_exact:
  assumes "0 \<le> x" and "0 < y"
  shows "py_mod x y = x - y * of_int \<lfloor>x / y\<rfloor>"
    and "0 \<le> py_mod x y" and "py_mod x y < y"
proof -
  have "of_int \<lfloor>x / y\<rfloor> \<le> x / y" by (rule of_int_floor_le)
  with assms(2) have a: "of_int \<lfloor>x / y\<rfloor> * y \<le> x" by (simp only: pos_le_divide_eq)
  have "x / y < of_int \<lfloor>x / y\<rfloor> + 1" by linarith
  with assms(2) have b: "x < (of_int \<lfloor>x / y\<rfloor> + 1) * y" by (simp only: pos_divide_less_eq)
  have m: "0 \<le> fmod x y" "fmod x y < y"
    using a b by (simp_all add: fmod_nonneg[OF assms] algebra_simps)
  have e: "py_mod x y = fmod x y" using m assms(2) by (auto simp add: py_mod_def Let_def)
  show "py_mod x y = x - y * of_int \<lfloor>x / y\<rfloor>" by (simp only: e fmod_nonneg[OF assms])
  show "0 \<le> py_mod x y" "py_mod x y < y" using m by (simp_all only: e)
qed

text \<open>
  Below \<open>2 ^ 53\<close> every whole number is a binary64 number, so the two roundings of
  \<open>//\<close> by a whole divisor change nothing: the quotient is the exact floor.
\<close>

lemma py_floordiv_exact:
  assumes "0 \<le> x" and "x < 2 ^ 53" and "0 < c"
  shows "py_floordiv x (of_int c) = of_int \<lfloor>x / of_int c\<rfloor>"
proof -
  define y :: real where "y = of_int c"
  define k where "k = \<lfloor>x / y\<rfloor>"
  have y: "0 < y" "1 \<le> y" using assms(3) by (simp_all add: y_def)
  have md: "fmod x y = x - y * of_int k" unfolding k_def by (rule fmod_nonneg[OF assms(1) y(1)])
  have m: "0 \<le> fmod x y" "fmod x y < y"
    using py_mod_exact[OF assms(1) y(1)] unfolding md k_def by simp_all
  have k0: "0 \<le> k" using assms(1) y(1) by (simp add: k_def)
  have "of_int k \<le> x / y" unfolding k_def by (rule of_int_floor_le)
  also have "x / y \<le> x" using frac_le[of x x 1 y] assms(1) y(2) by simp
  finally have kx: "of_int k \<le> x" .
  have "(of_int k :: real) < of_int (2 ^ 53)" using kx assms(2) by simp
  then have k1: "\<bar>k\<bar> < 2 ^ 53" using k0 by (simp only: of_int_less_iff abs_of_nonneg)
  have xm: "x - fmod x y = of_int (c * k)" unfolding md by (simp add: y_def)
  have "x - fmod x y \<le> x" using m(1) by simp
  then have "(of_int (c * k) :: real) < of_int (2 ^ 53)" using assms(2) unfolding xm by simp
  moreover have "0 \<le> c * k" using k0 assms(3) by simp
  ultimately have ck: "\<bar>c * k\<bar> < 2 ^ 53" by (simp only: of_int_less_iff abs_of_nonneg)
  have s1: "round64 (x - fmod x y) = of_int (c * k)"
    unfolding xm by (rule round64_of_int[OF ck])
  have "(of_int (c * k) :: real) / y = of_int k" using y(1) by (simp add: y_def)
  then have s2: "round64 (round64 (x - fmod x y) / y) = of_int k"
    using round64_of_int[OF k1] by (simp only: s1)
  have r0: "round64 0 = 0" by (simp add: round64_def)
  have "py_floordiv x y = of_int k"
    unfolding py_floordiv_def Let_def s2 using m y(1) by (auto simp add: r0)
  then show ?thesis by (simp only: y_def k_def)
qed

lemma py_int_nonneg: "0 \<le> x \<Longrightarrow> py_int x = \<lfloor>x\<rfloor>"
  by (simp add: py_int_def)

lemma py_int_of_int: "py_int (of_int k) = k"
  by (simp add: py_int_def)

lemma round64_nonneg: "0 \<le> x \<Longrightarrow> 0 \<le> round64 x"
proof -
  assume x: "0 \<le> x"
  define ulp :: real where "ulp = 2 powi (max (exponent x - 52) (- 1074))"
  have pos: "0 < ulp" by (simp add: ulp_def)
  have "of_int 0 \<le> x / ulp" using x pos by simp
  then have "0 \<le> round_half_even (x / ulp)" by (rule round_half_even_ge)
  then have "0 \<le> of_int (round_half_even (x / ulp)) * ulp"
    using pos by simp
  then show ?thesis by (simp add: round64_def Let_def ulp_def)
qed

lemma py_floordiv_nonneg:
  assumes "0 \<le> x" and "0 < y"
  shows "0 \<le> py_floordiv x y"
proof -
  define dv where "dv = round64 (round64 (x - fmod x y) / y)"
  have m: "0 \<le> fmod x y" "fmod x y \<le> x"
    using py_mod_exact[OF assms] fmod_nonneg[OF assms] assms
    by (simp_all add: pos_le_divide_eq mult.commute)
  have "0 \<le> round64 (x - fmod x y)" using m by (intro round64_nonneg) simp
  then have "0 \<le> round64 (x - fmod x y) / y" using assms(2) by simp
  then have dv: "0 \<le> dv" unfolding dv_def by (rule round64_nonneg)
  then have fl: "(0::real) \<le> of_int \<lfloor>dv\<rfloor>" by simp
  then have "0 \<le> round64 (of_int \<lfloor>dv\<rfloor> + 1)" by (intro round64_nonneg) simp
  then show ?thesis
    using fl m assms(2) unfolding py_floordiv_def Let_def dv_def[symmetric] by auto
qed

text \<open>Evaluating a rounding on a number that is written out.\<close>

lemmas round64_eval = round64_def exponent_def bit_length.simps round_half_even_def Let_def

section \<open>Properties of the string operations\<close>

lemma dec_small: "n < 10 \<Longrightarrow> dec n = [48 + n]"
  by (subst dec.simps) simp

lemma dec_step: "10 \<le> n \<Longrightarrow> dec n = dec (n div 10) @ [48 + n mod 10]"
  by (subst dec.simps) simp

lemma dec_not_Nil: "dec n \<noteq> []"
  by (cases "n < 10") (simp_all add: dec_small dec_step)

lemma set_dec: "set (dec n) \<subseteq> {48..57}"
proof (induction n rule: dec.induct)
  case (1 n)
  show ?case
  proof (cases "n < 10")
    case True
    then show ?thesis by (simp add: dec_small)
  next
    case False
    have "n mod 10 < 10" by simp
    then have "48 + n mod 10 \<in> {48..57}" by (simp del: mod_less_divisor)
    then show ?thesis using 1[OF False] False by (simp add: dec_step)
  qed
qed

lemma hd_dec: "0 < n \<Longrightarrow> hd (dec n) \<noteq> 48"
proof (induction n rule: dec.induct)
  case (1 n)
  show ?case
  proof (cases "n < 10")
    case True
    then show ?thesis using 1(2) by (simp add: dec_small)
  next
    case False
    then have "0 < n div 10" by simp
    then have "hd (dec (n div 10)) \<noteq> 48" using 1(1)[OF False] by simp
    then show ?thesis using False by (simp add: dec_step dec_not_Nil)
  qed
qed

lemma length_dec_le: "0 < k \<Longrightarrow> n < 10 ^ k \<Longrightarrow> length (dec n) \<le> k"
proof (induction n arbitrary: k rule: dec.induct)
  case (1 n)
  show ?case
  proof (cases "n < 10")
    case True
    then show ?thesis using 1(2) by (simp add: dec_small)
  next
    case False
    then obtain j where k: "k = Suc j" "0 < j"
      using 1(2,3) by (cases k; cases "k - 1") auto
    have "n div 10 < 10 ^ j" using 1(3) k by (simp add: less_mult_imp_div_less mult.commute)
    then have "length (dec (n div 10)) \<le> j" using 1(1)[OF False k(2)] by simp
    then show ?thesis using False k by (simp add: dec_step)
  qed
qed

lemma length_dec_hundred: "100 \<le> n \<Longrightarrow> 3 \<le> length (dec n)"
proof -
  assume n: "100 \<le> n"
  then have a: "10 \<le> n" "10 \<le> n div 10" by simp_all
  have "dec n = (dec (n div 10 div 10) @ [48 + n div 10 mod 10]) @ [48 + n mod 10]"
    by (simp only: dec_step[OF a(1)] dec_step[OF a(2)])
  moreover have "1 \<le> length (dec (n div 10 div 10))"
    using dec_not_Nil[of "n div 10 div 10"] by (simp add: Suc_le_eq)
  ultimately show ?thesis by simp
qed

lemma length_zfill: "length (zfill w s) = max w (length s)"
  by (simp add: zfill_def)

lemma zfill_long: "w \<le> length s \<Longrightarrow> zfill w s = s"
  by (simp add: zfill_def)

text \<open>A number below 100 filled to two digits, and a year of four digits.\<close>

lemma zfill2_dec: "n < 100 \<Longrightarrow> zfill 2 (dec n) = [48 + n div 10, 48 + n mod 10]"
proof (cases "n < 10")
  case True
  then show ?thesis by (simp add: dec_small zfill_def)
next
  case False
  assume "n < 100"
  then have "n div 10 < 10" by simp
  then show ?thesis using False by (simp add: dec_step dec_small zfill_def)
qed

lemma dec_four:
  assumes "1000 \<le> n" and "n < 10000"
  shows "dec n = [48 + n div 1000, 48 + n div 100 mod 10, 48 + n div 10 mod 10, 48 + n mod 10]"
proof -
  have a: "10 \<le> n" "10 \<le> n div 10" "10 \<le> n div 10 div 10" "n div 10 div 10 div 10 < 10"
    using assms by simp_all
  have d: "n div 10 div 10 = n div 100" "n div 10 div 10 div 10 = n div 1000"
    by (simp_all add: div_mult2_eq[symmetric])
  have "dec n = ((dec (n div 10 div 10 div 10) @ [48 + n div 10 div 10 mod 10]) @
      [48 + n div 10 mod 10]) @ [48 + n mod 10]"
    by (simp only: dec_step[OF a(1)] dec_step[OF a(2)] dec_step[OF a(3)])
  then have "dec n = (([48 + n div 10 div 10 div 10] @ [48 + n div 10 div 10 mod 10]) @
      [48 + n div 10 mod 10]) @ [48 + n mod 10]"
    by (simp only: dec_small[OF a(4)])
  then show ?thesis unfolding d by simp
qed

text \<open>Reading decimal digits back.\<close>

lemma undec_snoc: "undec (s @ [d]) = 10 * undec s + (d - 48)"
  by (simp add: undec_def)

lemma undec_dec: "undec (dec n) = n"
proof (induction n rule: dec.induct)
  case (1 n)
  show ?case
  proof (cases "n < 10")
    case True
    then show ?thesis by (simp add: dec_small undec_def)
  next
    case False
    have "undec (dec n) = 10 * undec (dec (n div 10)) + n mod 10"
      using False by (simp add: dec_step undec_snoc)
    then show ?thesis using 1[OF False] by simp
  qed
qed

lemma undec_zeros: "undec (replicate k 48 @ s) = undec s"
  by (induction k) (simp_all add: undec_def)

lemma undec_zfill_dec: "undec (zfill w (dec n)) = n"
  by (simp add: zfill_def undec_zeros undec_dec)

lemma set_zfill_dec: "set (zfill w (dec n)) \<subseteq> {48..57}"
  using set_dec[of n] by (auto simp add: zfill_def)

text \<open>
  The digits of the hours: two digits below 100 hours, and from 100 hours on the
  decimal digits of the number, without a zero in front.
\<close>

lemma hours_digits:
  "set (zfill 2 (dec h)) \<subseteq> {48..57} \<and>
   foldl (\<lambda>a d. 10 * a + (d - 48)) 0 (zfill 2 (dec h)) = h \<and>
   (if h < 100 then zfill 2 (dec h) = [48 + h div 10, 48 + h mod 10]
    else 3 \<le> length (zfill 2 (dec h)) \<and> hd (zfill 2 (dec h)) \<noteq> 48)"
proof -
  have a: "foldl (\<lambda>a d. 10 * a + (d - 48)) 0 (zfill 2 (dec h)) = h"
    using undec_zfill_dec[of 2 h] by (simp only: undec_def)
  have b: "zfill 2 (dec h) = [48 + h div 10, 48 + h mod 10]" if "h < 100"
    using that by (rule zfill2_dec)
  have c: "3 \<le> length (zfill 2 (dec h)) \<and> hd (zfill 2 (dec h)) \<noteq> 48" if "\<not> h < 100"
  proof -
    have l: "3 \<le> length (dec h)" using that by (simp add: length_dec_hundred)
    then have "zfill 2 (dec h) = dec h" by (simp add: zfill_long)
    then show ?thesis using l hd_dec[of h] that by simp
  qed
  show ?thesis using set_zfill_dec[of 2 h] a b c by simp
qed

text \<open>Whitespace, and what the three strip methods remove.\<close>

lemma isspace_iff:
  "isspace c \<longleftrightarrow>
     c \<in> {9..13} \<union> {28..32} \<union> {133, 160, 5760} \<union> {8192..8202} \<union> {8232, 8233, 8239, 8287, 12288}"
  by (auto simp add: isspace_def)

lemma rstrip_trail: "s = rstrip s @ rev (takeWhile isspace (rev s))"
proof -
  have "rev (takeWhile isspace (rev s) @ dropWhile isspace (rev s)) = s"
    by (simp only: takeWhile_dropWhile_id rev_rev_ident)
  then have "rev (dropWhile isspace (rev s)) @ rev (takeWhile isspace (rev s)) = s"
    by (simp only: rev_append)
  then show ?thesis by (simp only: rstrip_def)
qed

lemma rstrip_last: "rstrip s \<noteq> [] \<Longrightarrow> \<not> isspace (last (rstrip s))"
proof -
  assume "rstrip s \<noteq> []"
  then have ne: "dropWhile isspace (rev s) \<noteq> []" by (simp add: rstrip_def)
  then have "\<not> isspace (hd (dropWhile isspace (rev s)))" by (rule hd_dropWhile)
  then show ?thesis using ne by (simp add: rstrip_def last_rev)
qed

lemma rstrip_hd: "rstrip s \<noteq> [] \<Longrightarrow> hd (rstrip s) = hd s"
proof -
  assume "rstrip s \<noteq> []"
  then have "hd (rstrip s @ rev (takeWhile isspace (rev s))) = hd (rstrip s)" by simp
  then show ?thesis by (simp only: rstrip_trail[symmetric])
qed

lemma rstrip_spec:
  "(\<exists>trail. s = rstrip s @ trail \<and> (\<forall>c \<in> set trail. isspace c)) \<and>
   (rstrip s = [] \<or> \<not> isspace (last (rstrip s)))"
proof -
  have "\<forall>c \<in> set (rev (takeWhile isspace (rev s))). isspace c"
    by (auto dest: set_takeWhileD)
  then have "\<exists>trail. s = rstrip s @ trail \<and> (\<forall>c \<in> set trail. isspace c)"
    using rstrip_trail[of s] by blast
  then show ?thesis using rstrip_last[of s] by blast
qed

lemma strip_spec:
  "(\<exists>lead trail. s = lead @ strip s @ trail \<and> (\<forall>c \<in> set lead. isspace c) \<and>
      (\<forall>c \<in> set trail. isspace c)) \<and>
   (strip s = [] \<or> (\<not> isspace (hd (strip s)) \<and> \<not> isspace (last (strip s))))"
proof -
  define lead where "lead = takeWhile isspace s"
  define t where "t = dropWhile isspace s"
  define trail where "trail = rev (takeWhile isspace (rev t))"
  have s: "s = lead @ t" by (simp add: lead_def t_def)
  have st: "strip s = rstrip t" by (simp add: strip_def lstrip_def t_def)
  have t: "t = strip s @ trail" unfolding st trail_def by (rule rstrip_trail)
  have l: "\<forall>c \<in> set lead. isspace c" unfolding lead_def by (auto dest: set_takeWhileD)
  have r: "\<forall>c \<in> set trail. isspace c" unfolding trail_def by (auto dest: set_takeWhileD)
  have "s = lead @ strip s @ trail" using s t by simp
  then have a: "\<exists>lead trail. s = lead @ strip s @ trail \<and> (\<forall>c \<in> set lead. isspace c) \<and>
      (\<forall>c \<in> set trail. isspace c)"
    using l r by blast
  have b: "\<not> isspace (hd (strip s)) \<and> \<not> isspace (last (strip s))" if ne: "strip s \<noteq> []"
  proof -
    have tne: "t \<noteq> []" using ne t by auto
    then have "\<not> isspace (hd t)" unfolding t_def by (rule hd_dropWhile)
    moreover have "hd (strip s) = hd t" using ne unfolding st by (rule rstrip_hd)
    moreover have "\<not> isspace (last (strip s))" using ne unfolding st by (rule rstrip_last)
    ultimately show ?thesis by simp
  qed
  show ?thesis using a b by blast
qed

section \<open>Properties of the timestamp encoder\<close>

lemma fmt_02d_nonneg: "0 \<le> k \<Longrightarrow> fmt_02d k = zfill 2 (dec (nat k))"
  by (simp add: fmt_02d_def)

lemma fmt_02d_two: "0 \<le> k \<Longrightarrow> k < 100 \<Longrightarrow> fmt_02d k = [48 + nat k div 10, 48 + nat k mod 10]"
  by (simp add: fmt_02d_nonneg zfill2_dec)

lemma nat_floor_less: "0 \<le> (x::real) \<Longrightarrow> x < real n \<Longrightarrow> nat \<lfloor>x\<rfloor> < n"
  by linarith

text \<open>
  The minutes and the seconds of a time that is not negative: \<open>%\<close> is exact, and its
  result is below 3600, where \<open>//\<close> is exact too.
\<close>

lemma format_timestamp_low:
  assumes "0 \<le> seconds"
  shows "format_timestamp seconds =
           zfill 2 (dec (nat (py_int (py_floordiv seconds 3600)))) @
           [58, 48 + nat \<lfloor>(seconds - 3600 * of_int \<lfloor>seconds / 3600\<rfloor>) / 60\<rfloor> div 10,
            48 + nat \<lfloor>(seconds - 3600 * of_int \<lfloor>seconds / 3600\<rfloor>) / 60\<rfloor> mod 10,
            58, 48 + nat \<lfloor>seconds - 60 * of_int \<lfloor>seconds / 60\<rfloor>\<rfloor> div 10,
            48 + nat \<lfloor>seconds - 60 * of_int \<lfloor>seconds / 60\<rfloor>\<rfloor> mod 10]"
    and "nat \<lfloor>(seconds - 3600 * of_int \<lfloor>seconds / 3600\<rfloor>) / 60\<rfloor> < 60"
    and "nat \<lfloor>seconds - 60 * of_int \<lfloor>seconds / 60\<rfloor>\<rfloor> < 60"
proof -
  define r where "r = seconds - 3600 * of_int \<lfloor>seconds / 3600\<rfloor>"
  define t where "t = seconds - 60 * of_int \<lfloor>seconds / 60\<rfloor>"
  have r: "py_mod seconds 3600 = r" "0 \<le> r" "r < 3600"
    using py_mod_exact[OF assms, of 3600] by (simp_all add: r_def)
  have t: "py_mod seconds 60 = t" "0 \<le> t" "t < 60"
    using py_mod_exact[OF assms, of 60] by (simp_all add: t_def)
  have "r < 2 ^ 53" using r(3) by simp
  then have "py_floordiv r (of_int 60) = of_int \<lfloor>r / of_int 60\<rfloor>"
    using r(2) by (intro py_floordiv_exact) simp_all
  then have M: "py_int (py_floordiv r 60) = \<lfloor>r / 60\<rfloor>" by (simp add: py_int_of_int)
  have m: "0 \<le> \<lfloor>r / 60\<rfloor>" "\<lfloor>r / 60\<rfloor> < 100" "\<lfloor>r / 60\<rfloor> < 60"
    using r(2,3) by (simp_all add: floor_less_iff)
  have s: "0 \<le> \<lfloor>t\<rfloor>" "\<lfloor>t\<rfloor> < 100" "\<lfloor>t\<rfloor> < 60"
    using t(2,3) by (simp_all add: floor_less_iff)
  have S: "py_int t = \<lfloor>t\<rfloor>" using t(2) by (rule py_int_nonneg)
  have "0 \<le> py_floordiv seconds 3600" using assms by (intro py_floordiv_nonneg) simp_all
  then have h: "0 \<le> py_int (py_floordiv seconds 3600)" by (simp add: py_int_def)
  show "format_timestamp seconds =
           zfill 2 (dec (nat (py_int (py_floordiv seconds 3600)))) @
           [58, 48 + nat \<lfloor>r / 60\<rfloor> div 10, 48 + nat \<lfloor>r / 60\<rfloor> mod 10,
            58, 48 + nat \<lfloor>t\<rfloor> div 10, 48 + nat \<lfloor>t\<rfloor> mod 10]"
    unfolding format_timestamp_def Let_def r(1) t(1) M S
    by (simp add: fmt_02d_nonneg[OF h] fmt_02d_two[OF m(1,2)] fmt_02d_two[OF s(1,2)] str_of_def)
  show "nat \<lfloor>r / 60\<rfloor> < 60" using m(1,3) by linarith
  show "nat \<lfloor>t\<rfloor> < 60" using s(1,3) by linarith
qed

text \<open>The hours of a time below \<open>2 ^ 53\<close> seconds.\<close>

lemma format_timestamp_hours:
  assumes "0 \<le> seconds" and "seconds < 2 ^ 53"
  shows "nat (py_int (py_floordiv seconds 3600)) = nat \<lfloor>seconds / 3600\<rfloor>"
proof -
  have "py_floordiv seconds (of_int 3600) = of_int \<lfloor>seconds / of_int 3600\<rfloor>"
    using assms by (intro py_floordiv_exact) simp_all
  then show ?thesis by (simp add: py_int_of_int)
qed

lemma format_timestamp_exact:
  assumes "0 \<le> seconds" and "seconds < 2 ^ 53"
  shows "format_timestamp seconds =
           zfill 2 (dec (nat \<lfloor>seconds / 3600\<rfloor>)) @
           [58, 48 + nat \<lfloor>(seconds - 3600 * of_int \<lfloor>seconds / 3600\<rfloor>) / 60\<rfloor> div 10,
            48 + nat \<lfloor>(seconds - 3600 * of_int \<lfloor>seconds / 3600\<rfloor>) / 60\<rfloor> mod 10,
            58, 48 + nat \<lfloor>seconds - 60 * of_int \<lfloor>seconds / 60\<rfloor>\<rfloor> div 10,
            48 + nat \<lfloor>seconds - 60 * of_int \<lfloor>seconds / 60\<rfloor>\<rfloor> mod 10]"
  using format_timestamp_low(1)[OF assms(1)] by (simp only: format_timestamp_hours[OF assms])

lemma format_timestamp_examples:
  "format_timestamp 0 = str_of ''00:00:00''"
  "format_timestamp 1 = str_of ''00:00:01''"
  "format_timestamp 2 = str_of ''00:00:02''"
  "format_timestamp 3 = str_of ''00:00:03''"
  "format_timestamp 5 = str_of ''00:00:05''"
  "format_timestamp (13 / 2) = str_of ''00:00:06''"
  "format_timestamp 3661 = str_of ''01:01:01''"
  "format_timestamp 360000 = str_of ''100:00:00''"
  by (simp_all add: format_timestamp_exact zfill_def dec.simps str_of_def)

text \<open>
  Claim C5, amended. For every number of seconds that is not negative, the encoder
  returns the hours, a colon, two digits of minutes, a colon and two digits of seconds,
  where minutes is the floor of (seconds mod 3600) / 60 and secs the floor of
  seconds mod 60; fractions are cut off, not rounded. The hours are decimal digits, at
  least two. Below \<open>2 ^ 53\<close> seconds they are the digits of the floor of seconds / 3600,
  filled with a zero to two digits below 100 hours and as many digits as the number has
  from 100 hours on. So 0 gives 00:00:00, 3661 gives 01:01:01, the float nearest to
  59.999 gives 00:00:59, and 360000 gives 100:00:00.
\<close>

theorem format_timestamp_fields:
  assumes "0 \<le> seconds"
  shows "(let h = nat \<lfloor>seconds / 3600\<rfloor>;
              m = nat \<lfloor>(seconds - 3600 * of_int \<lfloor>seconds / 3600\<rfloor>) / 60\<rfloor>;
              s = nat \<lfloor>seconds - 60 * of_int \<lfloor>seconds / 60\<rfloor>\<rfloor>
          in (\<exists>hours. format_timestamp seconds =
                  hours @ [58, 48 + m div 10, 48 + m mod 10, 58, 48 + s div 10, 48 + s mod 10] \<and>
                set hours \<subseteq> {48..57} \<and> 2 \<le> length hours \<and>
                (seconds < 2 ^ 53 \<longrightarrow>
                   foldl (\<lambda>a d. 10 * a + (d - 48)) 0 hours = h \<and>
                   (if h < 100 then hours = [48 + h div 10, 48 + h mod 10]
                    else 3 \<le> length hours \<and> hd hours \<noteq> 48))) \<and>
             m < 60 \<and> s < 60) \<and>
         format_timestamp 0 = str_of ''00:00:00'' \<and>
         format_timestamp 3661 = str_of ''01:01:01'' \<and>
         format_timestamp (round64 59.999) = str_of ''00:00:59'' \<and>
         format_timestamp 360000 = str_of ''100:00:00''"
proof -
  define hours where "hours = zfill 2 (dec (nat (py_int (py_floordiv seconds 3600))))"
  note low = format_timestamp_low[OF assms, folded hours_def]
  have a: "set hours \<subseteq> {48..57}" "2 \<le> length hours"
    unfolding hours_def by (simp_all add: set_zfill_dec length_zfill)
  have b: "foldl (\<lambda>a d. 10 * a + (d - 48)) 0 hours = nat \<lfloor>seconds / 3600\<rfloor> \<and>
      (if nat \<lfloor>seconds / 3600\<rfloor> < 100
       then hours = [48 + nat \<lfloor>seconds / 3600\<rfloor> div 10, 48 + nat \<lfloor>seconds / 3600\<rfloor> mod 10]
       else 3 \<le> length hours \<and> hd hours \<noteq> 48)"
    if "seconds < 2 ^ 53"
    using hours_digits[of "nat \<lfloor>seconds / 3600\<rfloor>"]
    unfolding hours_def format_timestamp_hours[OF assms that] by blast
  have general: "\<exists>hours. format_timestamp seconds =
        hours @ [58, 48 + nat \<lfloor>(seconds - 3600 * of_int \<lfloor>seconds / 3600\<rfloor>) / 60\<rfloor> div 10,
                 48 + nat \<lfloor>(seconds - 3600 * of_int \<lfloor>seconds / 3600\<rfloor>) / 60\<rfloor> mod 10,
                 58, 48 + nat \<lfloor>seconds - 60 * of_int \<lfloor>seconds / 60\<rfloor>\<rfloor> div 10,
                 48 + nat \<lfloor>seconds - 60 * of_int \<lfloor>seconds / 60\<rfloor>\<rfloor> mod 10] \<and>
      set hours \<subseteq> {48..57} \<and> 2 \<le> length hours \<and>
      (seconds < 2 ^ 53 \<longrightarrow>
         foldl (\<lambda>a d. 10 * a + (d - 48)) 0 hours = nat \<lfloor>seconds / 3600\<rfloor> \<and>
         (if nat \<lfloor>seconds / 3600\<rfloor> < 100
          then hours = [48 + nat \<lfloor>seconds / 3600\<rfloor> div 10, 48 + nat \<lfloor>seconds / 3600\<rfloor> mod 10]
          else 3 \<le> length hours \<and> hd hours \<noteq> 48))"
    using low(1) a b by blast
  have r: "round64 59.999 = 8444108563831325 / 2 ^ 47"
    by (simp add: round64_eval)
  have ex: "format_timestamp (round64 59.999) = str_of ''00:00:59''"
    unfolding r by (simp add: format_timestamp_exact zfill_def dec.simps str_of_def)
  show ?thesis
    unfolding Let_def using general low(2,3) format_timestamp_examples(1,7,8) ex by blast
qed

theorem format_timestamp_fields_witness:
  "(0::real) \<le> 7325.5 \<and> (7325.5::real) < 2 ^ 53 \<and>
   format_timestamp 7325.5 = str_of ''02:02:05'' \<and>
   (0::real) \<le> 360000.5 \<and> (360000.5::real) < 2 ^ 53 \<and>
   (\<exists>hours. format_timestamp 360000.5 = hours @ str_of '':00:00'' \<and>
      foldl (\<lambda>a d. 10 * a + (d - 48)) 0 hours = 100 \<and> 3 \<le> length hours \<and> hd hours \<noteq> 48)"
proof -
  have a: "format_timestamp 7325.5 = str_of ''02:02:05''"
    using format_timestamp_fields[of "7325.5"] by (auto simp add: Let_def str_of_def)
  have b: "\<exists>hours. format_timestamp 360000.5 = hours @ str_of '':00:00'' \<and>
      foldl (\<lambda>a d. 10 * a + (d - 48)) 0 hours = 100 \<and> 3 \<le> length hours \<and> hd hours \<noteq> 48"
    using format_timestamp_fields[of "360000.5"] by (auto simp add: Let_def str_of_def)
  show ?thesis using a b by simp
qed

text \<open>
  From \<open>2 ^ 53\<close> seconds on the hours can differ from the floor of seconds / 3600:
  \<open>10 ^ 22\<close> is a binary64 number, the quotient \<open>10 ^ 22 / 3600\<close> is rounded to the
  binary64 number 2777777777777777664, and the floor is 2777777777777777777.
\<close>

theorem format_timestamp_hours_rounded:
  "format_timestamp (10 ^ 22) = str_of ''2777777777777777664:46:40'' \<and>
   round64 (10 ^ 22) = 10 ^ 22 \<and>
   \<lfloor>(10 ^ 22 :: real) / 3600\<rfloor> = 2777777777777777777"
proof -
  have a: "fmod (10 ^ 22) 3600 = 2800" by (simp add: fmod_def py_int_def)
  have b: "round64 (10 ^ 22 - 2800) = 10 ^ 22" by (simp add: round64_eval)
  have c: "round64 (10 ^ 22 / 3600) = 2777777777777777664" by (simp add: round64_eval)
  have d: "round64 0 = 0" by (simp add: round64_def)
  have h: "py_floordiv (10 ^ 22) 3600 = 2777777777777777664"
    unfolding py_floordiv_def Let_def a b c by (simp add: d)
  have m: "py_mod (10 ^ 22) 3600 = 2800" unfolding py_mod_def Let_def a by simp
  have m': "py_floordiv 2800 60 = 46"
    using py_floordiv_exact[of 2800 60] by simp
  have s: "py_mod (10 ^ 22) 60 = 40" by (simp add: py_mod_def fmod_def py_int_def)
  have "format_timestamp (10 ^ 22) = str_of ''2777777777777777664:46:40''"
    unfolding format_timestamp_def Let_def h m m' s
    by (simp add: py_int_def fmt_02d_def zfill_def dec.simps str_of_def)
  moreover have "round64 (10 ^ 22) = 10 ^ 22" by (simp add: round64_eval)
  moreover have "\<lfloor>(10 ^ 22 :: real) / 3600\<rfloor> = 2777777777777777777" by simp
  ultimately show ?thesis by blast
qed

section \<open>Properties of the file names\<close>

text \<open>The fifteen characters of \<open>%Y%m%d_%H%M%S\<close>.\<close>

lemma strftime_compact_digits:
  assumes "datetime_ok t"
  shows "strftime_compact t =
           [48 + year t div 1000, 48 + year t div 100 mod 10, 48 + year t div 10 mod 10,
            48 + year t mod 10,
            48 + month t div 10, 48 + month t mod 10, 48 + day t div 10, 48 + day t mod 10,
            95,
            48 + hour t div 10, 48 + hour t mod 10, 48 + minute t div 10, 48 + minute t mod 10,
            48 + second t div 10, 48 + second t mod 10]"
proof -
  have y: "1000 \<le> year t" "year t < 10000" using assms by (simp_all add: datetime_ok_def)
  have f: "month t < 100" "day t < 100" "hour t < 100" "minute t < 100" "second t < 100"
    using assms by (simp_all add: datetime_ok_def)
  show ?thesis
    unfolding strftime_compact_def dec_four[OF y] zfill2_dec[OF f(1)] zfill2_dec[OF f(2)]
      zfill2_dec[OF f(3)] zfill2_dec[OF f(4)] zfill2_dec[OF f(5)]
    by (simp add: str_of_def)
qed

lemma length_strftime_compact: "datetime_ok t \<Longrightarrow> length (strftime_compact t) = 15"
  by (simp add: strftime_compact_digits)

lemma safe_title_examples:
  "safe_title ascii_isalnum (str_of ''Title: With / Bad * Chars??'') =
     str_of ''Title With  Bad  Chars''"
  "safe_title ascii_isalnum (str_of ''Live at 5 ?! '') = str_of ''Live at 5''"
  "safe_title ascii_isalnum (replicate 200 97) = replicate 50 97"
  "safe_title ascii_isalnum (replicate 50 97 @ str_of ''?!'') = replicate 50 97"
  by (simp_all add: safe_title_def keeps_def ascii_isalnum_def rstrip_def isspace_def str_of_def)

text \<open>
  Claim C6. For every title, the common stem of the three file names is built by keeping
  exactly the characters of the title that \<open>isalnum\<close> accepts (letters and digits)
  or that are a space, a hyphen or an underscore, in their order and with nothing put
  in place of the others; then removing the whitespace at the end, all of it and
  nothing else; then keeping the first 50 characters; then appending an underscore and
  the instant as YYYYMMDD_HHMMSS, which has 15 characters. So two titles with the same
  sanitized prefix give stems of the same length, whatever the length of the titles
  beyond 50 characters. The title \<open>Live at 5 ?! \<close> gives \<open>Live at 5\<close>.
\<close>

theorem file_stem_shape:
  assumes "datetime_ok now" and "datetime_ok now'"
  shows "(let whitespace = {9..13} \<union> {28..32} \<union> {133, 160, 5760} \<union> {8192..8202} \<union>
                           {8232, 8233, 8239, 8287, 12288};
              kept = filter (\<lambda>c. isalnum c \<or> c = 32 \<or> c = 45 \<or> c = 95) title;
              stripped = rstrip kept
          in (\<exists>trail. kept = stripped @ trail \<and> set trail \<subseteq> whitespace) \<and>
             (stripped = [] \<or> last stripped \<notin> whitespace) \<and>
             safe_title isalnum title = take 50 stripped \<and>
             file_stem isalnum title now =
               take 50 stripped @ [95] @
               [48 + year now div 1000, 48 + year now div 100 mod 10, 48 + year now div 10 mod 10,
                48 + year now mod 10,
                48 + month now div 10, 48 + month now mod 10,
                48 + day now div 10, 48 + day now mod 10,
                95,
                48 + hour now div 10, 48 + hour now mod 10,
                48 + minute now div 10, 48 + minute now mod 10,
                48 + second now div 10, 48 + second now mod 10]) \<and>
         length (safe_title isalnum title) \<le> 50 \<and>
         length (file_stem isalnum title now) = length (safe_title isalnum title) + 16 \<and>
         (safe_title isalnum title = safe_title isalnum title' \<longrightarrow>
            length (file_stem isalnum title now) = length (file_stem isalnum title' now')) \<and>
         safe_title ascii_isalnum (str_of ''Title: With / Bad * Chars??'') =
           str_of ''Title With  Bad  Chars'' \<and>
         safe_title ascii_isalnum (str_of ''Live at 5 ?! '') = str_of ''Live at 5''"
proof -
  define whitespace :: "nat set" where
    "whitespace = {9..13} \<union> {28..32} \<union> {133, 160, 5760} \<union> {8192..8202} \<union>
                  {8232, 8233, 8239, 8287, 12288}"
  define kept where "kept = filter (\<lambda>c. isalnum c \<or> c = 32 \<or> c = 45 \<or> c = 95) title"
  have ws: "isspace c \<longleftrightarrow> c \<in> whitespace" for c
    unfolding whitespace_def by (rule isspace_iff)
  obtain trail where trail: "kept = rstrip kept @ trail" "\<forall>c \<in> set trail. isspace c"
    using rstrip_spec[of kept] by blast
  have a: "\<exists>trail. kept = rstrip kept @ trail \<and> set trail \<subseteq> whitespace"
    using trail ws by blast
  have b: "rstrip kept = [] \<or> last (rstrip kept) \<notin> whitespace"
    using rstrip_spec[of kept] ws by blast
  have c: "safe_title isalnum title = take 50 (rstrip kept)"
    by (simp add: safe_title_def keeps_def[abs_def] kept_def)
  have d: "file_stem isalnum title now =
      take 50 (rstrip kept) @ [95] @
      [48 + year now div 1000, 48 + year now div 100 mod 10, 48 + year now div 10 mod 10,
       48 + year now mod 10,
       48 + month now div 10, 48 + month now mod 10,
       48 + day now div 10, 48 + day now mod 10,
       95,
       48 + hour now div 10, 48 + hour now mod 10,
       48 + minute now div 10, 48 + minute now mod 10,
       48 + second now div 10, 48 + second now mod 10]"
    unfolding file_stem_def c strftime_compact_digits[OF assms(1)] by (simp add: str_of_def)
  have e: "length (safe_title isalnum title) \<le> 50" by (simp add: safe_title_def)
  have f: "length (file_stem isalnum t n) = length (safe_title isalnum t) + 16"
    if "datetime_ok n" for t n
    using length_strftime_compact[OF that] by (simp add: file_stem_def str_of_def)
  have g: "safe_title isalnum title = safe_title isalnum title' \<longrightarrow>
      length (file_stem isalnum title now) = length (file_stem isalnum title' now')"
    using f[OF assms(1), of title] f[OF assms(2), of title'] by simp
  have first: "(\<exists>trail. kept = rstrip kept @ trail \<and> set trail \<subseteq> whitespace) \<and>
      (rstrip kept = [] \<or> last (rstrip kept) \<notin> whitespace) \<and>
      safe_title isalnum title = take 50 (rstrip kept) \<and>
      file_stem isalnum title now =
        take 50 (rstrip kept) @ [95] @
        [48 + year now div 1000, 48 + year now div 100 mod 10, 48 + year now div 10 mod 10,
         48 + year now mod 10,
         48 + month now div 10, 48 + month now mod 10,
         48 + day now div 10, 48 + day now mod 10,
         95,
         48 + hour now div 10, 48 + hour now mod 10,
         48 + minute now div 10, 48 + minute now mod 10,
         48 + second now div 10, 48 + second now mod 10]"
    using a b c d by blast
  show ?thesis
    unfolding Let_def
    using first[unfolded kept_def whitespace_def] e f[OF assms(1), of title] g
      safe_title_examples(1,2)
    by blast
qed

theorem file_stem_shape_witness:
  "datetime_ok \<lparr>year = 2024, month = 1, day = 2, hour = 3, minute = 4, second = 5\<rparr> \<and>
   datetime_ok \<lparr>year = 2025, month = 12, day = 31, hour = 23, minute = 59, second = 59\<rparr> \<and>
   file_stem ascii_isalnum (str_of ''Live at 5 ?! '')
     \<lparr>year = 2024, month = 1, day = 2, hour = 3, minute = 4, second = 5\<rparr> =
     str_of ''Live at 5_20240102_030405'' \<and>
   safe_title ascii_isalnum (replicate 200 97) =
     safe_title ascii_isalnum (replicate 50 97 @ str_of ''?!'') \<and>
   length (file_stem ascii_isalnum (replicate 200 97)
             \<lparr>year = 2024, month = 1, day = 2, hour = 3, minute = 4, second = 5\<rparr>) = 66 \<and>
   length (file_stem ascii_isalnum (replicate 50 97 @ str_of ''?!'')
             \<lparr>year = 2025, month = 12, day = 31, hour = 23, minute = 59, second = 59\<rparr>) = 66"
proof -
  let ?d = "\<lparr>year = 2024, month = 1, day = 2, hour = 3, minute = 4, second = 5\<rparr>"
  let ?d' = "\<lparr>year = 2025, month = 12, day = 31, hour = 23, minute = 59, second = 59\<rparr>"
  have ok: "datetime_ok ?d" "datetime_ok ?d'" by (simp_all add: datetime_ok_def)
  have eq: "safe_title ascii_isalnum (replicate 200 97) =
            safe_title ascii_isalnum (replicate 50 97 @ str_of ''?!'')"
    by (simp only: safe_title_examples(3,4))
  have len: "length (safe_title ascii_isalnum (replicate 200 97)) = 50"
    by (simp add: safe_title_examples(3))
  note S = file_stem_shape[OF ok, of ascii_isalnum "str_of ''Live at 5 ?! ''", THEN conjunct1]
  have st: "file_stem ascii_isalnum (str_of ''Live at 5 ?! '') ?d =
      str_of ''Live at 5_20240102_030405''"
    using S unfolding Let_def
    by (simp add: ascii_isalnum_def rstrip_def isspace_def str_of_def)
  note T = file_stem_shape[OF ok, of ascii_isalnum "replicate 200 97" "replicate 50 97 @ str_of ''?!''"]
  from T have l1: "length (file_stem ascii_isalnum (replicate 200 97) ?d) =
      length (safe_title ascii_isalnum (replicate 200 97)) + 16"
    by (elim conjE)
  from T have l2: "safe_title ascii_isalnum (replicate 200 97) =
        safe_title ascii_isalnum (replicate 50 97 @ str_of ''?!'') \<longrightarrow>
      length (file_stem ascii_isalnum (replicate 200 97) ?d) =
      length (file_stem ascii_isalnum (replicate 50 97 @ str_of ''?!'') ?d')"
    by (elim conjE)
  have a: "length (file_stem ascii_isalnum (replicate 200 97) ?d) = 66"
    using l1 len by simp
  have b: "length (file_stem ascii_isalnum (replicate 50 97 @ str_of ''?!'') ?d') = 66"
    using l2 eq a by simp
  show ?thesis
    using ok st eq a b by (intro conjI)
qed

text \<open>
  Claim C10. There is a title for which the sanitized title part of the stem ends in a
  space: 49 underscores, a space and one more underscore. The trailing whitespace is
  stripped before the cut at 50 characters and not again after it.
\<close>

theorem safe_title_can_end_in_space:
  "safe_title isalnum (replicate 49 95 @ [32, 95]) = replicate 49 95 @ [32] \<and>
   last (safe_title isalnum (replicate 49 95 @ [32, 95])) = 32 \<and>
   file_stem isalnum (replicate 49 95 @ [32, 95]) now =
     replicate 49 95 @ str_of '' _'' @ strftime_compact now \<and>
   (\<exists>title. safe_title isalnum title \<noteq> [] \<and> last (safe_title isalnum title) = 32)"
proof -
  have a: "safe_title isalnum (replicate 49 95 @ [32, 95]) = replicate 49 95 @ [32]"
    by (simp add: safe_title_def keeps_def rstrip_def isspace_def)
  then have b: "safe_title isalnum (replicate 49 95 @ [32, 95]) \<noteq> [] \<and>
     last (safe_title isalnum (replicate 49 95 @ [32, 95])) = 32" by simp
  then have c: "\<exists>title. safe_title isalnum title \<noteq> [] \<and> last (safe_title isalnum title) = 32"
    by (rule exI)
  show ?thesis using a b c by (simp add: file_stem_def str_of_def)
qed

section \<open>Properties of the complete transcription\<close>

text \<open>The nineteen characters of \<open>%Y-%m-%d %H:%M:%S\<close>.\<close>

lemma strftime_date_digits:
  assumes "datetime_ok t"
  shows "strftime_date t =
           [48 + year t div 1000, 48 + year t div 100 mod 10, 48 + year t div 10 mod 10,
            48 + year t mod 10, 45,
            48 + month t div 10, 48 + month t mod 10, 45,
            48 + day t div 10, 48 + day t mod 10, 32,
            48 + hour t div 10, 48 + hour t mod 10, 58,
            48 + minute t div 10, 48 + minute t mod 10, 58,
            48 + second t div 10, 48 + second t mod 10]"
proof -
  have y: "1000 \<le> year t" "year t < 10000" using assms by (simp_all add: datetime_ok_def)
  have f: "month t < 100" "day t < 100" "hour t < 100" "minute t < 100" "second t < 100"
    using assms by (simp_all add: datetime_ok_def)
  show ?thesis
    unfolding strftime_date_def dec_four[OF y] zfill2_dec[OF f(1)] zfill2_dec[OF f(2)]
      zfill2_dec[OF f(3)] zfill2_dec[OF f(4)] zfill2_dec[OF f(5)]
    by (simp add: str_of_def)
qed

lemma strip_examples:
  "strip ([32, 10, 9] @ str_of ''Hello  world'' @ [32, 13, 10, 160]) = str_of ''Hello  world''"
  "strip [32, 10, 9, 12288] = []"
  "strip (str_of ''a'') = str_of ''a''"
  "strip (str_of ''b'') = str_of ''b''"
  "strip (str_of '' b '') = str_of ''b''"
  by (simp_all add: strip_def lstrip_def rstrip_def isspace_def str_of_def)

text \<open>
  Claim C8. The body of the first file is the header
  \<open>Transcription of: <title>\<close>, \<open>Source: <source>\<close>,
  \<open>Date: <YYYY-MM-DD HH:MM:SS>\<close>, \<open>Language: <lang>\<close>, each ended by a newline,
  then a line of 80 equals signs, a blank line, and the text of the result without the
  whitespace at its start and at its end: what is removed is whitespace only, and what
  remains neither starts nor ends with whitespace. The body is the same for every list
  of segments.
\<close>

theorem full_text_body_format:
  assumes "datetime_ok now'"
  shows "(let whitespace = {9..13} \<union> {28..32} \<union> {133, 160, 5760} \<union> {8192..8202} \<union>
                           {8232, 8233, 8239, 8287, 12288};
              text = strip (full_text result)
          in txt_content (save_transcript isalnum now now' video_title result source_url) =
               str_of ''Transcription of: '' @ video_title @ [10] @
               str_of ''Source: '' @ source_url @ [10] @
               str_of ''Date: '' @
               [48 + year now' div 1000, 48 + year now' div 100 mod 10,
                48 + year now' div 10 mod 10, 48 + year now' mod 10, 45,
                48 + month now' div 10, 48 + month now' mod 10, 45,
                48 + day now' div 10, 48 + day now' mod 10, 32,
                48 + hour now' div 10, 48 + hour now' mod 10, 58,
                48 + minute now' div 10, 48 + minute now' mod 10, 58,
                48 + second now' div 10, 48 + second now' mod 10] @ [10] @
               str_of ''Language: '' @ language result @ [10] @
               replicate 80 61 @ [10] @
               [10] @
               text \<and>
             (\<exists>lead trail. full_text result = lead @ text @ trail \<and>
                set lead \<subseteq> whitespace \<and> set trail \<subseteq> whitespace) \<and>
             (text = [] \<or> (hd text \<notin> whitespace \<and> last text \<notin> whitespace))) \<and>
         txt_content (save_transcript isalnum now now' video_title (result\<lparr>segments := segs\<rparr>)
            source_url) =
           txt_content (save_transcript isalnum now now' video_title result source_url) \<and>
         strip ([32, 10, 9] @ str_of ''Hello  world'' @ [32, 13, 10, 160]) = str_of ''Hello  world''"
proof -
  define whitespace :: "nat set" where
    "whitespace = {9..13} \<union> {28..32} \<union> {133, 160, 5760} \<union> {8192..8202} \<union>
                  {8232, 8233, 8239, 8287, 12288}"
  define body_text where "body_text = strip (full_text result)"
  have ws: "isspace c \<longleftrightarrow> c \<in> whitespace" for c
    unfolding whitespace_def by (rule isspace_iff)
  obtain lead trail where lt: "full_text result = lead @ body_text @ trail"
    "\<forall>c \<in> set lead. isspace c" "\<forall>c \<in> set trail. isspace c"
    using strip_spec[of "full_text result"] unfolding body_text_def by blast
  have a: "\<exists>lead trail. full_text result = lead @ body_text @ trail \<and>
      set lead \<subseteq> whitespace \<and> set trail \<subseteq> whitespace"
    using lt ws by blast
  have b: "body_text = [] \<or> (hd body_text \<notin> whitespace \<and> last body_text \<notin> whitespace)"
    using strip_spec[of "full_text result"] ws unfolding body_text_def by blast
  have c: "txt_content (save_transcript isalnum now now' video_title result source_url) =
      str_of ''Transcription of: '' @ video_title @ [10] @
      str_of ''Source: '' @ source_url @ [10] @
      str_of ''Date: '' @
      [48 + year now' div 1000, 48 + year now' div 100 mod 10,
       48 + year now' div 10 mod 10, 48 + year now' mod 10, 45,
       48 + month now' div 10, 48 + month now' mod 10, 45,
       48 + day now' div 10, 48 + day now' mod 10, 32,
       48 + hour now' div 10, 48 + hour now' mod 10, 58,
       48 + minute now' div 10, 48 + minute now' mod 10, 58,
       48 + second now' div 10, 48 + second now' mod 10] @ [10] @
      str_of ''Language: '' @ language result @ [10] @
      replicate 80 61 @ [10] @
      [10] @
      body_text"
    unfolding save_transcript_def Let_def full_text_body_def strftime_date_digits[OF assms]
    by (simp add: separator_def body_text_def)
  have d: "txt_content (save_transcript isalnum now now' video_title (result\<lparr>segments := segs\<rparr>)
            source_url) =
           txt_content (save_transcript isalnum now now' video_title result source_url)"
    by (simp add: save_transcript_def Let_def full_text_body_def)
  show ?thesis
    unfolding Let_def
    using c[unfolded body_text_def] a[unfolded body_text_def whitespace_def]
      b[unfolded body_text_def whitespace_def] d strip_examples(1)
    by blast
qed

theorem full_text_body_format_witness:
  "datetime_ok \<lparr>year = 2025, month = 12, day = 31, hour = 23, minute = 59, second = 7\<rparr> \<and>
   txt_content (save_transcript ascii_isalnum
      \<lparr>year = 2024, month = 1, day = 2, hour = 3, minute = 4, second = 5\<rparr>
      \<lparr>year = 2025, month = 12, day = 31, hour = 23, minute = 59, second = 7\<rparr>
      (str_of ''My title'')
      \<lparr>language = str_of ''en'',
        full_text = [32, 10, 9] @ str_of ''Hello  world'' @ [32, 13, 10, 160],
        segments = []\<rparr>
      (str_of ''https://example.org/v'')) =
     str_of ''Transcription of: My title'' @ [10] @
     str_of ''Source: https://example.org/v'' @ [10] @
     str_of ''Date: 2025-12-31 23:59:07'' @ [10] @
     str_of ''Language: en'' @ [10] @
     replicate 80 61 @ [10, 10] @
     str_of ''Hello  world''"
proof -
  let ?d = "\<lparr>year = 2025, month = 12, day = 31, hour = 23, minute = 59, second = 7\<rparr>"
  have ok: "datetime_ok ?d" by (simp add: datetime_ok_def)
  note T = full_text_body_format[OF ok, THEN conjunct1, unfolded Let_def, THEN conjunct1]
  show ?thesis
    using ok by (simp add: T str_of_def strip_def lstrip_def rstrip_def isspace_def)
qed

section \<open>Properties of the lyrics grouping\<close>

lemma lyrics_state_at_0: "lyrics_state_at segs 0 = lyrics_init"
  by (simp add: lyrics_state_at_def)

lemma lyrics_state_at_Suc:
  "lyrics_state_at segs (Suc n) = lyrics_step segs n (lyrics_state_at segs n)"
  by (simp add: lyrics_state_at_def)

text \<open>
  One iteration, with the comparison of the rounded difference written as a comparison
  of the difference itself.
\<close>

lemma lyrics_step_cases:
  "lyrics_step segs i st =
     (if (Suc i < length segs \<and>
          3 / 2 + 1 / 2 ^ 53 < seg_start (segs ! Suc i) - seg_end (segs ! i)) \<or>
         5 \<le> length (current_paragraph st) \<or> Suc i = length segs
      then \<lparr>current_paragraph = [],
            paragraphs = paragraphs st @ [current_paragraph st @ [strip (seg_text (segs ! i))]]\<rparr>
      else \<lparr>current_paragraph = current_paragraph st @ [strip (seg_text (segs ! i))],
            paragraphs = paragraphs st\<rparr>)"
proof -
  have a: "(int i = int (length segs) - 1) = (Suc i = length segs)" by auto
  have b: "(1.5 < round64 x) = (3 / 2 + 1 / 2 ^ 53 < x)" for x
    using round64_three_halves_iff[of x] by simp
  show ?thesis unfolding lyrics_step_def Let_def a b by auto
qed

lemma lyrics_invariant:
  "n \<le> length segs \<Longrightarrow>
     concat (paragraphs (lyrics_state_at segs n)) @ current_paragraph (lyrics_state_at segs n) =
       map (\<lambda>s. strip (seg_text s)) (take n segs) \<and>
     length (current_paragraph (lyrics_state_at segs n)) < 6 \<and>
     (\<forall>p \<in> set (paragraphs (lyrics_state_at segs n)). p \<noteq> [] \<and> length p \<le> 6) \<and>
     (n = length segs \<longrightarrow> current_paragraph (lyrics_state_at segs n) = [])"
proof (induction n)
  case 0
  then show ?case by (simp add: lyrics_state_at_0 lyrics_init_def)
next
  case (Suc n)
  then have n: "n < length segs" by simp
  have IH: "concat (paragraphs (lyrics_state_at segs n)) @ current_paragraph (lyrics_state_at segs n) =
       map (\<lambda>s. strip (seg_text s)) (take n segs)"
    "length (current_paragraph (lyrics_state_at segs n)) < 6"
    "\<forall>p \<in> set (paragraphs (lyrics_state_at segs n)). p \<noteq> [] \<and> length p \<le> 6"
    using Suc by simp_all
  have tk: "map (\<lambda>s. strip (seg_text s)) (take (Suc n) segs) =
       (concat (paragraphs (lyrics_state_at segs n)) @ current_paragraph (lyrics_state_at segs n)) @
       [strip (seg_text (segs ! n))]"
    using n IH(1) by (simp add: take_Suc_conv_app_nth)
  show ?case
    unfolding lyrics_state_at_Suc lyrics_step_cases tk using IH(2,3) n by auto
qed


lemma lyrics_chunks:
  assumes nlp: "\<forall>i. Suc i < length segs \<longrightarrow> seg_start (segs ! Suc i) - seg_end (segs ! i) \<le> 1.5"
  shows "n \<le> length segs \<Longrightarrow>
     paragraphs (lyrics_state_at segs n) =
       map (\<lambda>j. take 6 (drop (6 * j) (map (\<lambda>s. strip (seg_text s)) segs)))
         [0..<(if n = length segs then (n + 5) div 6 else n div 6)] \<and>
     current_paragraph (lyrics_state_at segs n) =
       (if n = length segs then []
        else drop (6 * (n div 6)) (take n (map (\<lambda>s. strip (seg_text s)) segs)))"
proof (induction n)
  case 0
  then show ?case by (simp add: lyrics_state_at_0 lyrics_init_def)
next
  case (Suc n)
  define T where "T = map (\<lambda>s. strip (seg_text s)) segs"
  define k where "k = 6 * (n div 6)"
  define st where "st = lyrics_state_at segs n"
  have n: "n < length segs" using Suc.prems by simp
  have lenT: "length T = length segs" by (simp add: T_def)
  have k: "k \<le> n" "n - k = n mod 6" "n = k + n mod 6" unfolding k_def by presburger+
  have ps: "paragraphs st = map (\<lambda>j. take 6 (drop (6 * j) T)) [0..<n div 6]"
    and cur: "current_paragraph st = drop k (take n T)"
    using Suc.IH n unfolding T_def k_def st_def by simp_all
  have lcur: "length (current_paragraph st) = n mod 6"
    using cur k n lenT by simp
  have Tn: "strip (seg_text (segs ! n)) = T ! n" using n by (simp add: T_def)
  have cur': "current_paragraph st @ [strip (seg_text (segs ! n))] = drop k (take (Suc n) T)"
    using n k(1) lenT by (simp add: cur Tn take_Suc_conv_app_nth)
  have gap: "\<not> 3 / 2 + 1 / 2 ^ 53 < seg_start (segs ! Suc n) - seg_end (segs ! n)"
    if "Suc n < length segs"
  proof -
    have "seg_start (segs ! Suc n) - seg_end (segs ! n) \<le> 1.5" using nlp that by blast
    then show ?thesis by simp
  qed
  define c where "c = (if Suc n = length segs then (Suc n + 5) div 6 else Suc n div 6)"
  define e where "e = (if Suc n = length segs then [] else drop (6 * (Suc n div 6)) (take (Suc n) T))"
  have "n mod 6 < 6" by simp
  then consider (full) "n mod 6 = 5" | (final) "n mod 6 < 5" "Suc n = length segs"
    | (keep) "n mod 6 < 5" "Suc n < length segs"
    using n by linarith
  then have "paragraphs (lyrics_step segs n st) = map (\<lambda>j. take 6 (drop (6 * j) T)) [0..<c] \<and>
     current_paragraph (lyrics_step segs n st) = e"
  proof cases
    case full
    have d: "Suc n div 6 = Suc (n div 6)" "(Suc n + 5) div 6 = Suc (n div 6)" "Suc n = 6 + k"
      using full unfolding k_def by presburger+
    have c: "c = Suc (n div 6)" by (simp only: c_def d(1,2) if_cancel)
    have "6 * (Suc n div 6) = Suc n" using full by presburger
    then have "drop (6 * (Suc n div 6)) (take (Suc n) T) = []"
      by (simp only: drop_eq_Nil length_take min.cobounded2)
    then have e: "e = []" by (simp only: e_def if_cancel)
    have "drop k (take (Suc n) T) = take 6 (drop k T)"
      by (simp add: d(3) take_drop)
    then show ?thesis
      using full lcur by (simp add: lyrics_step_cases ps cur' c e k_def)
  next
    case final
    have "(Suc n + 5) div 6 = Suc (n div 6)" using final(1) by presburger
    then have c: "c = Suc (n div 6)" using final(2) by (simp add: c_def)
    have e: "e = []" using final by (simp add: e_def)
    have "length (drop k T) \<le> 6" using final k lenT by simp
    then have "drop k (take (Suc n) T) = take 6 (drop k T)"
      using final(2) lenT by simp
    then show ?thesis
      using final lcur by (simp add: lyrics_step_cases ps cur' c e k_def)
  next
    case keep
    have d: "Suc n div 6 = n div 6" using keep(1) by presburger
    have c: "c = n div 6" using keep by (simp add: c_def d)
    have e: "e = drop k (take (Suc n) T)" using keep by (simp add: e_def d k_def)
    show ?thesis
      using keep lcur gap by (simp add: lyrics_step_cases ps cur' c e)
  qed
  then show ?case unfolding lyrics_state_at_Suc st_def T_def c_def e_def .
qed


lemma lyrics_final:
  "concat (lyrics_paragraphs segs) = map (\<lambda>s. strip (seg_text s)) segs \<and>
   (\<forall>p \<in> set (lyrics_paragraphs segs). p \<noteq> [] \<and> length p \<le> 6)"
proof -
  note I = lyrics_invariant[of "length segs" segs, OF order_refl]
  have e: "current_paragraph (lyrics_state_at segs (length segs)) = []"
    using I by blast
  have c: "concat (lyrics_paragraphs segs) = map (\<lambda>s. strip (seg_text s)) segs"
    using I[THEN conjunct1] unfolding e lyrics_paragraphs_def by simp
  have "\<forall>p \<in> set (lyrics_paragraphs segs). p \<noteq> [] \<and> length p \<le> 6"
    using I unfolding lyrics_paragraphs_def by blast
  with c show ?thesis by blast
qed

lemma ceiling_sixth: "\<lceil>real n / 6\<rceil> = int ((n + 5) div 6)"
proof -
  have "real n / 6 \<le> real ((n + 5) div 6)" "real ((n + 5) div 6) < real n / 6 + 1"
    by (simp_all add: field_simps)
  then show ?thesis by (simp add: ceiling_unique)
qed

text \<open>
  Claim C3. For every sequence of N segments, N at least 1, in which no gap between the
  end of a segment and the start of the next exceeds 1.5 seconds, the lyrics grouping
  writes exactly ceil(N / 6) paragraphs; every paragraph but the last has exactly 6
  segments; paragraph j holds the texts of the segments 6j, ..., 6j + 5 as far as they
  exist, so the segments appear in their order.
\<close>

theorem lyrics_no_long_pause:
  assumes "segs \<noteq> []"
    and "\<forall>i. Suc i < length segs \<longrightarrow> seg_start (segs ! Suc i) - seg_end (segs ! i) \<le> 1.5"
  shows "int (length (lyrics_paragraphs segs)) = \<lceil>real (length segs) / 6\<rceil> \<and>
         (\<forall>j. Suc j < length (lyrics_paragraphs segs) \<longrightarrow> length (lyrics_paragraphs segs ! j) = 6) \<and>
         (\<forall>j. j < length (lyrics_paragraphs segs) \<longrightarrow>
            lyrics_paragraphs segs ! j =
              take 6 (drop (6 * j) (map (\<lambda>s. strip (seg_text s)) segs))) \<and>
         concat (lyrics_paragraphs segs) = map (\<lambda>s. strip (seg_text s)) segs"
proof -
  define T where "T = map (\<lambda>s. strip (seg_text s)) segs"
  have ps: "lyrics_paragraphs segs =
      map (\<lambda>j. take 6 (drop (6 * j) T)) [0..<(length segs + 5) div 6]"
    using lyrics_chunks[OF assms(2), of "length segs"] by (simp add: lyrics_paragraphs_def T_def)
  have len: "length (lyrics_paragraphs segs) = (length segs + 5) div 6" by (simp add: ps)
  have nth: "lyrics_paragraphs segs ! j = take 6 (drop (6 * j) T)"
    if "j < length (lyrics_paragraphs segs)" for j
    using that by (simp add: ps)
  have six: "length (lyrics_paragraphs segs ! j) = 6" if "Suc j < length (lyrics_paragraphs segs)" for j
  proof -
    have "Suc j < (length segs + 5) div 6" using that len by simp
    then have "6 * j + 6 \<le> length segs" by presburger
    then show ?thesis using that by (simp add: nth T_def)
  qed
  have cat: "concat (lyrics_paragraphs segs) = T"
    using lyrics_final[of segs] by (simp add: T_def)
  show ?thesis
    using len nth six cat unfolding T_def by (simp add: ceiling_sixth)
qed

theorem lyrics_no_long_pause_witness:
  "map (\<lambda>i. \<lparr>seg_start = real i, seg_end = real i + 1, seg_text = [97 + i]\<rparr>) [0..<7] \<noteq> [] \<and>
   length (lyrics_paragraphs
     (map (\<lambda>i. \<lparr>seg_start = real i, seg_end = real i + 1, seg_text = [97 + i]\<rparr>) [0..<7])) = 2 \<and>
   length (lyrics_paragraphs
     (map (\<lambda>i. \<lparr>seg_start = real i, seg_end = real i + 1, seg_text = [97 + i]\<rparr>) [0..<7]) ! 0) = 6 \<and>
   length (lyrics_paragraphs
     (map (\<lambda>i. \<lparr>seg_start = real i, seg_end = real i + 1, seg_text = [97 + i]\<rparr>) [0..<7]) ! 1) = 1"
proof -
  let ?segs = "map (\<lambda>i. \<lparr>seg_start = real i, seg_end = real i + 1, seg_text = [97 + i]\<rparr>) [0..<7]"
  have ne: "?segs \<noteq> []" by simp
  have nlp: "\<forall>i. Suc i < length ?segs \<longrightarrow> seg_start (?segs ! Suc i) - seg_end (?segs ! i) \<le> 1.5"
    by simp
  note T = lyrics_no_long_pause[OF ne nlp]
  have "\<lceil>real (length ?segs) / 6\<rceil> = 2" by (simp add: ceiling_sixth)
  with T have len: "length (lyrics_paragraphs ?segs) = 2" by simp
  from T len have a: "length (lyrics_paragraphs ?segs ! 0) = 6" by simp
  from T len have "lyrics_paragraphs ?segs ! 1 = take 6 (drop (6 * 1) (map (\<lambda>s. strip (seg_text s)) ?segs))"
    by simp
  then have b: "length (lyrics_paragraphs ?segs ! 1) = 1" by simp
  show ?thesis using ne len a b by (intro conjI)
qed

text \<open>
  Claim C4, amended. For every sequence of segments, the paragraphs of the lyrics
  grouping, concatenated, are the texts of the segments in their order (every segment is
  in exactly one paragraph); no paragraph is empty or has more than 6 segments; and
  iteration i writes the buffer as a paragraph and empties it exactly when the gap to
  the next segment, rounded to binary64, exceeds 1.5 seconds, or the buffer has reached
  6 segments, or segment i is the last one. Otherwise it writes nothing and keeps the
  buffer. The rounded gap exceeds 1.5 exactly when the gap itself exceeds
  \<open>1.5 + 2 ^ - 53\<close>, the middle between 1.5 and the next binary64 number.
\<close>

theorem lyrics_grouping:
  "concat (lyrics_paragraphs segs) = map (\<lambda>s. strip (seg_text s)) segs \<and>
   (\<forall>p \<in> set (lyrics_paragraphs segs). p \<noteq> [] \<and> length p \<le> 6) \<and>
   (\<forall>i. i < length segs \<longrightarrow>
      (let st = lyrics_state_at segs i;
           st' = lyrics_state_at segs (Suc i);
           buffer = current_paragraph st @ [strip (seg_text (segs ! i))]
       in concat (paragraphs st) @ current_paragraph st =
            map (\<lambda>s. strip (seg_text s)) (take i segs) \<and>
          (if (Suc i < length segs \<and>
               3 / 2 + 1 / 2 ^ 53 < seg_start (segs ! Suc i) - seg_end (segs ! i)) \<or>
              6 \<le> length buffer \<or> Suc i = length segs
           then paragraphs st' = paragraphs st @ [buffer] \<and> current_paragraph st' = []
           else paragraphs st' = paragraphs st \<and> current_paragraph st' = buffer))) \<and>
   (\<forall>gap. (3 / 2 < round64 gap) = (3 / 2 + 1 / 2 ^ 53 < gap))"
proof -
  note a = lyrics_final[of segs]
  have b: "concat (paragraphs (lyrics_state_at segs i)) @ current_paragraph (lyrics_state_at segs i) =
            map (\<lambda>s. strip (seg_text s)) (take i segs)" if "i < length segs" for i
    using lyrics_invariant[of i segs] that by simp
  have c: "(6 \<le> length (current_paragraph st @ [x])) = (5 \<le> length (current_paragraph st))"
    for st :: lyrics_state and x
    by auto
  have d: "\<forall>gap. (3 / 2 < round64 gap) = (3 / 2 + 1 / 2 ^ 53 < gap)"
    using round64_three_halves_iff by blast
  have e: "\<forall>i. i < length segs \<longrightarrow>
      (let st = lyrics_state_at segs i;
           st' = lyrics_state_at segs (Suc i);
           buffer = current_paragraph st @ [strip (seg_text (segs ! i))]
       in concat (paragraphs st) @ current_paragraph st =
            map (\<lambda>s. strip (seg_text s)) (take i segs) \<and>
          (if (Suc i < length segs \<and>
               3 / 2 + 1 / 2 ^ 53 < seg_start (segs ! Suc i) - seg_end (segs ! i)) \<or>
              6 \<le> length buffer \<or> Suc i = length segs
           then paragraphs st' = paragraphs st @ [buffer] \<and> current_paragraph st' = []
           else paragraphs st' = paragraphs st \<and> current_paragraph st' = buffer))"
    using b by (simp add: Let_def lyrics_state_at_Suc lyrics_step_cases)
  show ?thesis using a d e by blast
qed

theorem lyrics_grouping_witness:
  "lyrics_paragraphs
     [\<lparr>seg_start = 0, seg_end = 1, seg_text = str_of ''a''\<rparr>,
      \<lparr>seg_start = 5, seg_end = 6, seg_text = str_of ''b''\<rparr>] = [[str_of ''a''], [str_of ''b'']] \<and>
   paragraphs (lyrics_state_at
     [\<lparr>seg_start = 0, seg_end = 1, seg_text = str_of ''a''\<rparr>,
      \<lparr>seg_start = 5, seg_end = 6, seg_text = str_of ''b''\<rparr>] 1) = [[str_of ''a'']] \<and>
   (3::real) / 2 < round64 (5 - 1)"
proof -
  let ?segs = "[\<lparr>seg_start = 0, seg_end = 1, seg_text = str_of ''a''\<rparr>,
      \<lparr>seg_start = 5, seg_end = 6, seg_text = str_of ''b''\<rparr>]"
  have s: "strip (str_of ''a'') = str_of ''a''" "strip (str_of ''b'') = str_of ''b''"
    by (simp_all add: strip_def lstrip_def rstrip_def isspace_def str_of_def)
  note T = lyrics_grouping[of ?segs, THEN conjunct2, THEN conjunct2, THEN conjunct1, rule_format]
  note G = lyrics_grouping[of ?segs, THEN conjunct2, THEN conjunct2, THEN conjunct2, rule_format]
  have s1: "paragraphs (lyrics_state_at ?segs (Suc 0)) = [[str_of ''a'']] \<and>
            current_paragraph (lyrics_state_at ?segs (Suc 0)) = []"
    using T[of 0] by (simp add: Let_def lyrics_state_at_0 lyrics_init_def s)
  have s2: "paragraphs (lyrics_state_at ?segs (Suc (Suc 0))) = [[str_of ''a''], [str_of ''b'']]"
    using T[of "Suc 0"] s1 by (simp add: Let_def s)
  have p: "lyrics_paragraphs ?segs = [[str_of ''a''], [str_of ''b'']]"
    using s2 by (simp add: lyrics_paragraphs_def numeral_2_eq_2)
  have g: "(3::real) / 2 < round64 (5 - 1)" unfolding G by simp
  show ?thesis using p s1 g by simp
qed

text \<open>
  The gap itself can exceed 1.5 seconds without a flush. The binary64 numbers nearest
  to 0.02 and to 1.52 are \<open>5764607523034235 / 2 ^ 58\<close> and
  \<open>3422735716801577 / 2 ^ 51\<close>; their difference is above 1.5 and is rounded to 1.5.
  A segment that ends at the first and a segment that starts at the second stay in one
  paragraph.
\<close>

theorem lyrics_gap_rounded_to_limit:
  "(3::real) / 2 < 3422735716801577 / 2 ^ 51 - 5764607523034235 / 2 ^ 58 \<and>
   round64 0.02 = 5764607523034235 / 2 ^ 58 \<and>
   round64 1.52 = 3422735716801577 / 2 ^ 51 \<and>
   round64 (3422735716801577 / 2 ^ 51 - 5764607523034235 / 2 ^ 58) = 3 / 2 \<and>
   paragraphs (lyrics_state_at
     [\<lparr>seg_start = 0, seg_end = 5764607523034235 / 2 ^ 58, seg_text = str_of ''a''\<rparr>,
      \<lparr>seg_start = 3422735716801577 / 2 ^ 51, seg_end = 2, seg_text = str_of ''b''\<rparr>] 1) = [] \<and>
   lyrics_paragraphs
     [\<lparr>seg_start = 0, seg_end = 5764607523034235 / 2 ^ 58, seg_text = str_of ''a''\<rparr>,
      \<lparr>seg_start = 3422735716801577 / 2 ^ 51, seg_end = 2, seg_text = str_of ''b''\<rparr>] =
     [[str_of ''a'', str_of ''b'']]"
proof -
  let ?segs = "[\<lparr>seg_start = 0, seg_end = 5764607523034235 / 2 ^ 58, seg_text = str_of ''a''\<rparr>,
      \<lparr>seg_start = 3422735716801577 / 2 ^ 51, seg_end = 2, seg_text = str_of ''b''\<rparr>]"
  have s: "strip (str_of ''a'') = str_of ''a''" "strip (str_of ''b'') = str_of ''b''"
    by (simp_all add: strip_def lstrip_def rstrip_def isspace_def str_of_def)
  have g: "(3::real) / 2 < 3422735716801577 / 2 ^ 51 - 5764607523034235 / 2 ^ 58" by simp
  have r1: "round64 0.02 = 5764607523034235 / 2 ^ 58" by (simp add: round64_eval)
  have r2: "round64 1.52 = 3422735716801577 / 2 ^ 51" by (simp add: round64_eval)
  have r3: "round64 (3422735716801577 / 2 ^ 51 - 5764607523034235 / 2 ^ 58) = 3 / 2"
    by (simp add: round64_eval)
  have st1: "lyrics_state_at ?segs (Suc 0) = \<lparr>current_paragraph = [str_of ''a''], paragraphs = []\<rparr>"
    unfolding lyrics_state_at_Suc lyrics_state_at_0 lyrics_step_def Let_def lyrics_init_def
    by (simp add: r3[simplified] s)
  have st2: "lyrics_state_at ?segs (Suc (Suc 0)) =
      \<lparr>current_paragraph = [], paragraphs = [[str_of ''a'', str_of ''b'']]\<rparr>"
    unfolding lyrics_state_at_Suc[of _ "Suc 0"] st1 lyrics_step_def Let_def
    by (simp add: s)
  have p1: "paragraphs (lyrics_state_at ?segs 1) = []" using st1 by simp
  have p2: "lyrics_paragraphs ?segs = [[str_of ''a'', str_of ''b'']]"
    using st2 by (simp add: lyrics_paragraphs_def numeral_2_eq_2)
  show ?thesis using g r1 r2 r3 p1 p2 by blast
qed

section \<open>Properties of the transcription with timestamps\<close>

subsection \<open>Lines\<close>






subsection \<open>Stamps\<close>








lemma takeWhile_all: "c \<notin> set a \<Longrightarrow> takeWhile (\<lambda>x. x \<noteq> c) a = a"
  by (induction a) auto

lemma dropWhile_all: "c \<notin> set a \<Longrightarrow> dropWhile (\<lambda>x. x \<noteq> c) a = []"
  by (induction a) auto






subsection \<open>Reading the seconds back\<close>





subsection \<open>Reading the blocks back\<close>

lemma parse_text_first: "parse_text stamps [] (l # next # rest) = parse_text stamps [l] (next # rest)"
  by simp









section \<open>A result without segments\<close>

text \<open>
  Claim C9. When the list of segments is empty, the body with timestamps and the body in
  lyrics format are exactly their headers: the title line, the source line, 80 equals
  signs and a blank line, with no block and no paragraph after them.
\<close>

theorem empty_segments_bodies:
  "srt_content (save_transcript isalnum now now' video_title (result\<lparr>segments := []\<rparr>) source_url) =
     str_of ''Transcription with timestamps of: '' @ video_title @ [10] @
     str_of ''Source: '' @ source_url @ [10] @
     replicate 80 61 @ [10] @
     [10] \<and>
   lyrics_content (save_transcript isalnum now now' video_title (result\<lparr>segments := []\<rparr>) source_url) =
     str_of ''Transcription of: '' @ video_title @ [10] @
     str_of ''Source: '' @ source_url @ [10] @
     replicate 80 61 @ [10] @
     [10] \<and>
   lyrics_paragraphs [] = []"
  by (simp add: save_transcript_def Let_def timestamped_body_def timestamped_header_def
      timestamped_blocks_def lyrics_body_def lyrics_header_def lyrics_paragraphs_def
      lyrics_state_at_def lyrics_init_def separator_def)

section \<open>Properties of the file location in \<open>download_audio\<close>\<close>

lemma translate_plain:
  "plain s \<Longrightarrow> translate (s @ [46, 42]) = map Literal s @ [Literal 46, Star]"
  by (induction s) (simp_all add: plain_def)

lemma items_match_star: "items_match [Star] s"
  by (induction s) simp_all

lemma items_match_literals:
  "items_match (map Literal p @ [Star]) name \<longleftrightarrow> prefix p name"
proof (induction p arbitrary: name)
  case Nil
  then show ?case by (simp add: items_match_star)
next
  case (Cons c p)
  then show ?case by (cases name) auto
qed

lemma fnmatch_plain:
  assumes "plain s"
  shows "fnmatch name (s @ str_of ''.*'') \<longleftrightarrow> shares_stem s name"
proof -
  have "map Literal s @ [Literal 46, Star] = map Literal (s @ [46]) @ [Star]" by simp
  then show ?thesis
    using items_match_literals[of "s @ [46]" name]
    by (simp add: fnmatch_def translate_plain[OF assms] shares_stem_def str_of_def)
qed

lemma shares_stem_hidden:
  "shares_stem s name \<Longrightarrow> ishidden name \<Longrightarrow> ishidden (s @ str_of ''.*'')"
  by (cases s; cases name) (auto simp add: shares_stem_def ishidden_def str_of_def)

lemma glob_plain:
  assumes "plain s"
  shows "glob dir (s @ str_of ''.*'') = filter (\<lambda>e. shares_stem s (fst e)) dir"
proof (cases "ishidden (s @ str_of ''.*'')")
  case True
  then show ?thesis by (simp add: glob_def fnmatch_plain[OF assms])
next
  case False
  then have "shares_stem s (fst e) \<Longrightarrow> \<not> ishidden (fst e)" for e :: "pystr \<times> real"
    using shares_stem_hidden by blast
  then have "filter (\<lambda>e. shares_stem s (fst e)) (filter (\<lambda>e. \<not> ishidden (fst e)) dir) =
      filter (\<lambda>e. shares_stem s (fst e)) dir"
    by (auto simp add: filter_filter intro: filter_cong)
  then show ?thesis using False by (simp add: glob_def fnmatch_plain[OF assms])
qed

lemma max_by_fold:
  fixes key :: "'a \<Rightarrow> real"
  shows "fold (\<lambda>y m. if key m < key y then y else m) xs x \<in> set (x # xs) \<and>
   (\<forall>y \<in> set (x # xs). key y \<le> key (fold (\<lambda>y m. if key m < key y then y else m) xs x))"
proof (induction xs arbitrary: x)
  case Nil
  then show ?case by simp
next
  case (Cons a xs)
  show ?case
    using Cons[of a] Cons[of x] by (auto simp add: not_less intro: order_trans less_imp_le)
qed

lemma max_by_in: "max_by key x xs \<in> set (x # xs)"
  using max_by_fold[of key xs x] by (simp add: max_by_def)

lemma max_by_ge: "y \<in> set (x # xs) \<Longrightarrow> key y \<le> key (max_by key x xs)"
  using max_by_fold[of key xs x] by (auto simp add: max_by_def)

lemma with_suffix_stem: "with_suffix name suf = stem name @ suf"
proof (cases "rfind name 46")
  case None
  then show ?thesis by (simp add: with_suffix_def path_suffix_def stem_def)
next
  case (Some i)
  show ?thesis
  proof (cases "0 < i \<and> i < length name - 1")
    case True
    then have "drop i name \<noteq> []" "length name - (length name - i) = i" by auto
    then show ?thesis using Some True by (simp add: with_suffix_def path_suffix_def stem_def)
  next
    case False
    then show ?thesis using Some by (simp add: with_suffix_def path_suffix_def stem_def)
  qed
qed


lemma candidate_stem:
  "candidate Original downloaded_file = downloaded_file"
  "candidate Aac downloaded_file = stem downloaded_file @ str_of ''.m4a''"
  by (simp_all add: candidate_def with_suffix_stem)

lemma download_audio_exists:
  "path_exists dir (candidate audio_quality downloaded_file) \<Longrightarrow>
   download_audio dir audio_quality downloaded_file video_title =
     Inr (candidate audio_quality downloaded_file, video_title)"
  by (simp add: download_audio_def candidate_def)

lemma download_audio_plain:
  assumes "plain (stem downloaded_file)"
    and "\<not> path_exists dir (candidate audio_quality downloaded_file)"
  shows "download_audio dir audio_quality downloaded_file video_title =
     (case filter (acceptable (stem downloaded_file)) dir of
        [] \<Rightarrow> Inr (candidate audio_quality downloaded_file, video_title)
      | e # es \<Rightarrow> Inr (fst (max_by snd e es), video_title))"
proof -
  have "filter (\<lambda>e. lower (path_suffix (fst e)) \<in> set audio_exts)
          (filter (\<lambda>e. shares_stem (stem downloaded_file) (fst e)) dir) =
        filter (acceptable (stem downloaded_file)) dir"
    by (simp add: acceptable_def[abs_def] conj_commute)
  then show ?thesis
    using assms(2)
    unfolding download_audio_def Let_def glob_plain[OF assms(1)] candidate_def by simp
qed

text \<open>Whatever the stem: when no file matched by the pattern has a media suffix.\<close>

lemma download_audio_no_match:
  assumes "\<not> path_exists dir (candidate audio_quality downloaded_file)"
    and "\<forall>e \<in> set (glob dir (stem downloaded_file @ str_of ''.*'')).
           lower (path_suffix (fst e)) \<notin> set audio_exts"
  shows "download_audio dir audio_quality downloaded_file video_title =
           Inr (candidate audio_quality downloaded_file, video_title)"
proof -
  have "filter (\<lambda>f. lower (path_suffix (fst f)) \<in> set audio_exts)
          (glob dir (stem downloaded_file @ str_of ''.*'')) = []"
    using assms(2) by (simp add: filter_empty_conv)
  then show ?thesis
    using assms(1) unfolding download_audio_def Let_def candidate_def by simp
qed

lemma download_audio_returns:
  "\<exists>p. download_audio dir audio_quality downloaded_file video_title = Inr (p, video_title)"
  by (simp add: download_audio_def Let_def split: list.split)

text \<open>
  Claim C1, amended. For every invocation with a plain stem where the candidate path
  (the expected path, or with the quality AAC the expected path with its suffix
  replaced by \<open>.m4a\<close>) does not exist and no entry of the directory shares the stem
  and has a suffix that, in lower case, is in the list of media extensions, the step
  returns the candidate path, a path that does not exist. It does not fail: no error
  is raised.
\<close>

theorem download_audio_nothing_found:
  assumes "plain (stem downloaded_file)"
    and "\<not> path_exists dir (candidate audio_quality downloaded_file)"
    and "\<forall>e \<in> set dir. shares_stem (stem downloaded_file) (fst e) \<longrightarrow>
           lower (path_suffix (fst e)) \<notin> set audio_exts"
  shows "download_audio dir audio_quality downloaded_file video_title =
           Inr (candidate audio_quality downloaded_file, video_title) \<and>
         download_audio dir audio_quality downloaded_file video_title \<noteq> Inl ArtifactNotFound"
proof -
  have "filter (acceptable (stem downloaded_file)) dir = []"
    using assms(3) by (auto simp add: filter_empty_conv acceptable_def)
  then have "download_audio dir audio_quality downloaded_file video_title =
           Inr (candidate audio_quality downloaded_file, video_title)"
    by (simp add: download_audio_plain[OF assms(1,2)])
  then show ?thesis by simp
qed

text \<open>
  Claim C2, amended. The candidate path is the expected path with the original quality
  and the expected path with its suffix replaced by \<open>.m4a\<close> with the quality AAC. If
  the candidate exists in the directory, the step returns the candidate. If it does
  not, the stem is plain, and some entry shares the stem and has a suffix that, in
  lower case, is in the list of media extensions, the step returns such an entry whose
  creation time is the most recent among them.
\<close>

theorem download_audio_resolves:
  "candidate Original downloaded_file = downloaded_file \<and>
   candidate Aac downloaded_file = stem downloaded_file @ str_of ''.m4a'' \<and>
   (path_exists dir (candidate audio_quality downloaded_file) \<longrightarrow>
      download_audio dir audio_quality downloaded_file video_title =
        Inr (candidate audio_quality downloaded_file, video_title)) \<and>
   (\<not> path_exists dir (candidate audio_quality downloaded_file) \<and>
    plain (stem downloaded_file) \<and>
    (\<exists>e \<in> set dir. shares_stem (stem downloaded_file) (fst e) \<and>
                    lower (path_suffix (fst e)) \<in> set audio_exts) \<longrightarrow>
      (\<exists>e \<in> set dir.
         shares_stem (stem downloaded_file) (fst e) \<and>
         lower (path_suffix (fst e)) \<in> set audio_exts \<and>
         download_audio dir audio_quality downloaded_file video_title = Inr (fst e, video_title) \<and>
         (\<forall>e' \<in> set dir.
            shares_stem (stem downloaded_file) (fst e') \<and>
            lower (path_suffix (fst e')) \<in> set audio_exts \<longrightarrow> snd e' \<le> snd e)))"
proof -
  let ?ok = "acceptable (stem downloaded_file)"
  have b: "\<exists>e \<in> set dir. ?ok e \<and>
             download_audio dir audio_quality downloaded_file video_title = Inr (fst e, video_title) \<and>
             (\<forall>e' \<in> set dir. ?ok e' \<longrightarrow> snd e' \<le> snd e)"
    if n: "\<not> path_exists dir (candidate audio_quality downloaded_file)"
      and p: "plain (stem downloaded_file)"
      and ex: "\<exists>e \<in> set dir. ?ok e"
  proof -
    from ex have "filter ?ok dir \<noteq> []" by (auto simp add: filter_empty_conv)
    then obtain x xs where x: "filter ?ok dir = x # xs" by (cases "filter ?ok dir") auto
    let ?m = "max_by snd x xs"
    have "?m \<in> set (filter ?ok dir)" using max_by_in[of snd x xs] x by simp
    then have m: "?m \<in> set dir" "?ok ?m" by simp_all
    have ge: "snd e' \<le> snd ?m" if "e' \<in> set dir" "?ok e'" for e'
    proof -
      have "e' \<in> set (x # xs)" using that x[symmetric] by simp
      then show ?thesis by (rule max_by_ge)
    qed
    have "download_audio dir audio_quality downloaded_file video_title = Inr (fst ?m, video_title)"
      using x by (simp add: download_audio_plain[OF p n])
    then show ?thesis using m ge by blast
  qed
  show ?thesis
    using candidate_stem[of downloaded_file]
      download_audio_exists[of dir audio_quality downloaded_file video_title] b
    unfolding acceptable_def by blast
qed

lemmas path_eval = str_of_def stem_def path_suffix_def rfind_def with_suffix_def lower_def
  audio_exts_def path_exists_def shares_stem_def plain_def

theorem download_audio_nothing_found_witness:
  "plain (stem (str_of ''a.webm'')) \<and>
   \<not> path_exists [(str_of ''b.mp3'', 1), (str_of ''a.txt'', 2)] (str_of ''a.webm'') \<and>
   download_audio [(str_of ''b.mp3'', 1), (str_of ''a.txt'', 2)] Original (str_of ''a.webm'')
     (str_of ''a'') = Inr (str_of ''a.webm'', str_of ''a'')"
proof -
  let ?dir = "[(str_of ''b.mp3'', 1::real), (str_of ''a.txt'', 2)]"
  have p: "plain (stem (str_of ''a.webm''))" by (simp add: path_eval)
  have n: "\<not> path_exists ?dir (candidate Original (str_of ''a.webm''))"
    by (simp add: candidate_def path_eval)
  have a: "\<forall>e \<in> set ?dir. shares_stem (stem (str_of ''a.webm'')) (fst e) \<longrightarrow>
             lower (path_suffix (fst e)) \<notin> set audio_exts"
    by (simp add: path_eval)
  show ?thesis
    using download_audio_nothing_found[OF p n a, of "str_of ''a''"] p n
    by (simp add: candidate_def)
qed

text \<open>
  In an empty directory nothing is found, and the step returns the expected path.
\<close>

theorem download_audio_returns_missing_path:
  "\<not> path_exists [] (str_of ''a.webm'') \<and>
   download_audio [] Original (str_of ''a.webm'') (str_of ''a'') =
     Inr (str_of ''a.webm'', str_of ''a'') \<and>
   download_audio [] Original (str_of ''a.webm'') (str_of ''a'') \<noteq> Inl ArtifactNotFound"
  by (simp add: download_audio_def glob_def path_exists_def)

theorem download_audio_resolves_witness:
  "path_exists [(str_of ''a.webm'', 1), (str_of ''a.m4a'', 2)] (str_of ''a.m4a'') \<and>
   download_audio [(str_of ''a.webm'', 1), (str_of ''a.m4a'', 2)] Aac (str_of ''a.webm'')
     (str_of ''a'') = Inr (str_of ''a.m4a'', str_of ''a'') \<and>
   plain (stem (str_of ''a.webm'')) \<and>
   \<not> path_exists [(str_of ''a.webm'', 1), (str_of ''a.mp4'', 3), (str_of ''a.MKV'', 2),
                    (str_of ''a.txt'', 5), (str_of ''ab.mp3'', 9)] (str_of ''a.m4a'') \<and>
   download_audio [(str_of ''a.webm'', 1), (str_of ''a.mp4'', 3), (str_of ''a.MKV'', 2),
                   (str_of ''a.txt'', 5), (str_of ''ab.mp3'', 9)] Aac (str_of ''a.webm'')
     (str_of ''a'') = Inr (str_of ''a.mp4'', str_of ''a'')"
proof -
  let ?d1 = "[(str_of ''a.webm'', 1::real), (str_of ''a.m4a'', 2)]"
  let ?d2 = "[(str_of ''a.webm'', 1::real), (str_of ''a.mp4'', 3), (str_of ''a.MKV'', 2),
              (str_of ''a.txt'', 5), (str_of ''ab.mp3'', 9)]"
  let ?ok = "\<lambda>e. shares_stem (stem (str_of ''a.webm'')) (fst e) \<and>
                  lower (path_suffix (fst e)) \<in> set audio_exts"
  have st: "stem (str_of ''a.webm'') @ str_of ''.m4a'' = str_of ''a.m4a''"
    by (simp add: path_eval)
  have p: "plain (stem (str_of ''a.webm''))" by (simp add: path_eval)
  have e1: "path_exists ?d1 (str_of ''a.m4a'')" by (simp add: path_eval)
  have n2: "\<not> path_exists ?d2 (str_of ''a.m4a'')" by (simp add: path_eval)
  have ok: "?ok (str_of ''a.webm'', 1)" "?ok (str_of ''a.mp4'', 3)" "?ok (str_of ''a.MKV'', 2)"
    "\<not> ?ok (str_of ''a.txt'', 5)" "\<not> ?ok (str_of ''ab.mp3'', 9)"
    by (simp_all add: path_eval)
  have c: "candidate Aac (str_of ''a.webm'') = str_of ''a.m4a''"
    by (simp add: candidate_def path_eval)
  note T1 = download_audio_resolves[where downloaded_file = "str_of ''a.webm''" and dir = ?d1
      and audio_quality = Aac and video_title = "str_of ''a''"]
  note T2 = download_audio_resolves[where downloaded_file = "str_of ''a.webm''" and dir = ?d2
      and audio_quality = Aac and video_title = "str_of ''a''"]
  have r1: "download_audio ?d1 Aac (str_of ''a.webm'') (str_of ''a'') =
      Inr (str_of ''a.m4a'', str_of ''a'')"
    using T1 e1 unfolding c by blast
  have "\<exists>e \<in> set ?d2. ?ok e" using ok(1) by simp
  then have "\<exists>e \<in> set ?d2. ?ok e \<and>
          download_audio ?d2 Aac (str_of ''a.webm'') (str_of ''a'') = Inr (fst e, str_of ''a'') \<and>
          (\<forall>e' \<in> set ?d2. ?ok e' \<longrightarrow> snd e' \<le> snd e)"
    using T2 p n2 unfolding c by blast
  then obtain e where e: "e \<in> set ?d2" "?ok e"
    "download_audio ?d2 Aac (str_of ''a.webm'') (str_of ''a'') = Inr (fst e, str_of ''a'')"
    "\<forall>e' \<in> set ?d2. ?ok e' \<longrightarrow> snd e' \<le> snd e"
    by blast
  from e(4) ok(2) have "3 \<le> snd e" by simp
  moreover from e(1) have "e = (str_of ''a.webm'', 1) \<or> e = (str_of ''a.mp4'', 3) \<or>
      e = (str_of ''a.MKV'', 2) \<or> e = (str_of ''a.txt'', 5) \<or> e = (str_of ''ab.mp3'', 9)"
    by simp
  ultimately have "e = (str_of ''a.mp4'', 3)" using e(2) ok(4,5) by auto
  with e(3) have r2: "download_audio ?d2 Aac (str_of ''a.webm'') (str_of ''a'') =
      Inr (str_of ''a.mp4'', str_of ''a'')" by simp
  show ?thesis using e1 r1 p n2 r2 by (intro conjI)
qed

text \<open>
  With the quality AAC the expected path is not returned although it exists, when the
  file with the suffix \<open>.m4a\<close> exists too.
\<close>

theorem download_audio_replaces_existing_expected_path:
  "path_exists [(str_of ''a.webm'', 1), (str_of ''a.m4a'', 2)] (str_of ''a.webm'') \<and>
   download_audio [(str_of ''a.webm'', 1), (str_of ''a.m4a'', 2)] Aac (str_of ''a.webm'')
     (str_of ''a'') = Inr (str_of ''a.m4a'', str_of ''a'') \<and>
   str_of ''a.m4a'' \<noteq> str_of ''a.webm''"
  by (simp add: download_audio_def path_eval)

text \<open>
  A stem with a bracket is read by \<open>glob\<close> as a pattern: the fallback does not find the
  file of that very name.
\<close>

lemma download_audio_bracket_in_stem:
  "download_audio [(str_of ''a[1].webm'', 1)] Aac (str_of ''a[1].webm'') (str_of ''a'') =
     Inr (str_of ''a[1].m4a'', str_of ''a'') \<and>
   download_audio [(str_of ''a1.mp3'', 1)] Aac (str_of ''a[1].webm'') (str_of ''a'') =
     Inr (str_of ''a1.mp3'', str_of ''a'')"
  by (simp add: download_audio_def glob_def fnmatch_def bracket_end_def in_bracket_def
      ishidden_def max_by_def path_eval)

end
